theory Spec2Isabelle
  imports Main "HOL-Library.Word"
begin

unbundle bit_operations_syntax

section \<open>Replication commands of tendisplus: commands/repl.cpp\<close>

text \<open>
  The theory embeds the commands \<^verbatim>\<open>pullbinlogs\<close>, \<^verbatim>\<open>restorebinlog\<close>,
  \<^verbatim>\<open>applybinlogs\<close> and \<^verbatim>\<open>slaveof\<close> of \<^verbatim>\<open>src/tendisplus/commands/repl.cpp\<close>.
  Each \<^verbatim>\<open>run\<close> method becomes a function from the session and the server state to
  the value the method returns and the server state it leaves. Everything the file
  calls but does not define (integer parsing, the record codecs, the storage engine,
  the shard locator, the replication manager) is either a field of the parameter
  record \<open>Env\<close> or a definition whose comment says what it stands for. The null
  checks \<^verbatim>\<open>INVARIANT(svr != nullptr)\<close>, \<^verbatim>\<open>INVARIANT(replMgr != nullptr)\<close> and
  \<^verbatim>\<open>INVARIANT(store != nullptr)\<close> always pass on a server that has its managers and have
  no counterpart here. The commands \<^verbatim>\<open>backup\<close>, \<^verbatim>\<open>fullsync\<close>, \<^verbatim>\<open>toggleincrsync\<close> and
  \<^verbatim>\<open>incrsync\<close> of the same file are not embedded.
\<close>

subsection \<open>Status, Expected and the outcome of a command\<close>

datatype ErrorCodes =
  ERR_OK | ERR_PARSEOPT | ERR_PARSEPKT | ERR_INTERNAL | ERR_EXHAUST | ERR_OTHER nat

type_synonym Status = "ErrorCodes \<times> string"

definition ok :: "Status \<Rightarrow> bool" where
  "ok s = (fst s = ERR_OK)"

definition code :: "Status \<Rightarrow> ErrorCodes" where
  "code s = fst s"

text \<open>
  \<^verbatim>\<open>Expected<T>\<close> is \<open>Status + T\<close>. A command ends in one of four ways: it returns
  a value, it returns a status, the process aborts (\<^verbatim>\<open>LOG(FATAL)\<close>, \<^verbatim>\<open>INVARIANT\<close>),
  or it indexes a vector past its end, which C++ leaves undefined.
\<close>

datatype 'a Outcome = Value 'a | Error Status | Abort string | OutOfRange

text \<open>The pieces \<^verbatim>\<open>Command::fmt...\<close> writes to the reply stream, in order.\<close>

datatype Fmt = FmtOK | FmtMultiBulkLen nat | FmtLongLong "64 word" | FmtBulk string

subsection \<open>Log records\<close>

text \<open>\<^verbatim>\<open>ReplOp\<close>: the two operations the file names, and any other enumerator value.\<close>

datatype ReplOp = REPL_OP_SET | REPL_OP_DEL | REPL_OP_OTHER nat

record ReplLogKey =
  getTxnId :: "64 word"
  getFlag :: "16 word"

record ReplLogValue =
  getOp :: ReplOp
  getOpKey :: string
  getOpValue :: string

record ReplLog =
  getReplLogKey :: ReplLogKey
  getReplLogValue :: ReplLogValue

abbreviation txnOf :: "ReplLog \<Rightarrow> 64 word" where
  "txnOf r \<equiv> getTxnId (getReplLogKey r)"

subsection \<open>Server state\<close>

datatype LockMode = LOCK_IS | LOCK_IX | LOCK_X

record KVStore =
  isOpen :: bool
  table :: "string \<rightharpoonup> string"
  binlog :: "ReplLog list"

text \<open>An open storage transaction: its store and the writes it has buffered.\<close>

record Transaction =
  txnStore :: nat
  writes :: "(string \<times> string option) list"

text \<open>
  \<^verbatim>\<open>std::map<uint64_t, std::list<ReplLog>>\<close>: an association list kept in ascending
  key order, which is the order a \<^verbatim>\<open>std::map\<close> is iterated in.
\<close>

type_synonym BinlogGroup = "(64 word \<times> ReplLog list) list"

text \<open>
  The server: its stores (\<^verbatim>\<open>getKVStoreCount\<close> is their number), the locks taken
  through the shard locator, the number of storage transactions opened, the
  replication manager's source descriptor (host, port, source store) of every store,
  and the batches handed to the replication manager's \<^verbatim>\<open>applyBinlogs\<close>.
\<close>

record ServerEntry =
  stores :: "KVStore list"
  locks :: "(nat \<times> LockMode) list"
  opened :: nat
  replSource :: "(string \<times> 64 word \<times> nat) list"
  applied :: "(nat \<times> nat \<times> BinlogGroup) list"

definition getKVStoreCount :: "ServerEntry \<Rightarrow> nat" where
  "getKVStoreCount svr = length (stores svr)"

record Session =
  getArgs :: "string list"
  sessId :: nat

subsection \<open>What the file uses and does not define\<close>

text \<open>
  Parameters: \<^verbatim>\<open>tendisplus::stoul\<close>, \<^verbatim>\<open>std::stoul\<close> (\<open>Inl\<close> is the exception's
  \<^verbatim>\<open>what()\<close>), \<^verbatim>\<open>toLower\<close>, \<^verbatim>\<open>Status::toString\<close>, the codecs of \<^verbatim>\<open>ReplLog\<close>,
  \<^verbatim>\<open>RecordKey\<close> and \<^verbatim>\<open>RecordValue\<close>, the constants \<^verbatim>\<open>Transaction::TXNID_UNINITED\<close>,
  \<^verbatim>\<open>ReplFlag::REPL_GROUP_START\<close> and \<^verbatim>\<open>ReplFlag::REPL_GROUP_END\<close>, and the status
  each collaborator call answers with (a lock that cannot be taken, a storage error,
  a refused source change).
\<close>

record ('rk, 'rv) Env =
  stoul :: "string \<Rightarrow> Status + 64 word"
  std_stoul :: "string \<Rightarrow> string + 64 word"
  toLower :: "string \<Rightarrow> string"
  toString :: "Status \<Rightarrow> string"
  ReplLog_decode :: "string \<Rightarrow> string \<Rightarrow> Status + ReplLog"
  ReplLog_encode :: "ReplLog \<Rightarrow> string \<times> string"
  RecordKey_decode :: "string \<Rightarrow> Status + 'rk"
  RecordKey_encode :: "'rk \<Rightarrow> string"
  RecordValue_decode :: "string \<Rightarrow> Status + 'rv"
  RecordValue_encode :: "'rv \<Rightarrow> string"
  TXNID_UNINITED :: "64 word"
  REPL_GROUP_START :: "16 word"
  REPL_GROUP_END :: "16 word"
  lockStatus :: "nat \<Rightarrow> LockMode \<Rightarrow> Status"
  createTransactionStatus :: "nat \<Rightarrow> Status"
  cursorFault :: "nat \<Rightarrow> 64 word \<Rightarrow> (nat \<times> Status) option"
  setKVStatus :: "string \<Rightarrow> string \<Rightarrow> Status"
  delKVStatus :: "string \<Rightarrow> Status"
  commitResult :: "nat \<Rightarrow> Status + 64 word"
  applyBinlogsStatus :: "nat \<Rightarrow> nat \<Rightarrow> BinlogGroup \<Rightarrow> Status"
  changeReplSourceStatus :: "nat \<Rightarrow> string \<Rightarrow> 64 word \<Rightarrow> nat \<Rightarrow> Status"

text \<open>
  Modelled from the spec: the shard locator \<^verbatim>\<open>SegmentMgr::getDb\<close>
  (``getShard(requester, shardId, lockMode, tolerateClosed=false)'', which fails ``if
  the shard does not exist or is not open''). On success the lock is taken and the
  store is returned, here as its index.
\<close>

definition getDb ::
  "('rk, 'rv) Env \<Rightarrow> ServerEntry \<Rightarrow> nat \<Rightarrow> LockMode \<Rightarrow> bool \<Rightarrow> (Status + nat) \<times> ServerEntry" where
  "getDb env svr i mode canOpenStoreNoneDB =
     (if length (stores svr) \<le> i then (Inl (ERR_INTERNAL, ''invalid instance id''), svr)
      else if \<not> canOpenStoreNoneDB \<and> \<not> isOpen (stores svr ! i)
        then (Inl (ERR_INTERNAL, ''store is not opened''), svr)
      else if \<not> ok (lockStatus env i mode) then (Inl (lockStatus env i mode), svr)
      else (Inr i, svr\<lparr>locks := locks svr @ [(i, mode)]\<rparr>))"

text \<open>
  Modelled from the spec: \<^verbatim>\<open>KVStore::createTransaction\<close>
  (``createTransaction() -> Transaction | Error''). A new transaction has buffered
  nothing.
\<close>

definition createTransaction ::
  "('rk, 'rv) Env \<Rightarrow> ServerEntry \<Rightarrow> nat \<Rightarrow> (Status + Transaction) \<times> ServerEntry" where
  "createTransaction env svr store =
     (if \<not> ok (createTransactionStatus env store)
        then (Inl (createTransactionStatus env store), svr)
      else (Inr \<lparr>txnStore = store, writes = []\<rparr>, svr\<lparr>opened := Suc (opened svr)\<rparr>))"

text \<open>
  Modelled from the spec: \<^verbatim>\<open>Transaction::createBinlogCursor\<close> and
  \<^verbatim>\<open>BinlogCursor::next\<close> (``ordered, resumable iterator over a shard's committed log
  records starting at a given sequence position'', the position being ``the
  transactionId of the next record to deliver''; ``next() -> LogRecord | Exhausted |
  Error''). The cursor is the list of the answers its \<^verbatim>\<open>next\<close> will give; once the
  list is used up \<^verbatim>\<open>next\<close> answers \<^verbatim>\<open>ERR_EXHAUST\<close>. A read failure after \<open>n\<close> records
  is the parameter \<open>cursorFault\<close>.
\<close>

type_synonym BinlogCursor = "(Status + ReplLog) list"

definition committedFrom :: "ServerEntry \<Rightarrow> nat \<Rightarrow> 64 word \<Rightarrow> ReplLog list" where
  "committedFrom svr store pos = filter (\<lambda>r. pos \<le> txnOf r) (binlog (stores svr ! store))"

definition createBinlogCursor ::
  "('rk, 'rv) Env \<Rightarrow> ServerEntry \<Rightarrow> Transaction \<Rightarrow> 64 word \<Rightarrow> BinlogCursor" where
  "createBinlogCursor env svr txn pos =
     (case cursorFault env (txnStore txn) pos of
        None \<Rightarrow> map Inr (committedFrom svr (txnStore txn) pos)
      | Some (n, st) \<Rightarrow> map Inr (take n (committedFrom svr (txnStore txn) pos)) @ [Inl st])"

text \<open>The records a cursor delivers when it is drained: those before its first answer
  that is not a record.\<close>

fun drained :: "BinlogCursor \<Rightarrow> ReplLog list" where
  "drained [] = []"
| "drained (Inl st # rest) = []"
| "drained (Inr r # rest) = r # drained rest"

subsection \<open>PullBinlogsCommand\<close>

text \<open>
  The \<^verbatim>\<open>while (true)\<close> loop of \<^verbatim>\<open>PullBinlogsCommand::run\<close>. The arguments are the
  constant \<^verbatim>\<open>TXNID_UNINITED\<close>, the cursor, \<^verbatim>\<open>binlogs\<close> and \<^verbatim>\<open>currId\<close>; \<open>Inl\<close> is the
  status the loop returns from the command with, \<open>Inr\<close> the vector it leaves at
  \<^verbatim>\<open>break\<close>.
\<close>

fun pull_loop ::
  "64 word \<Rightarrow> BinlogCursor \<Rightarrow> ReplLog list \<Rightarrow> 64 word \<Rightarrow> Status + ReplLog list" where
  "pull_loop uninited [] binlogs currId = Inr binlogs"
| "pull_loop uninited (Inl st # cursor) binlogs currId =
     (if code st \<noteq> ERR_EXHAUST then Inl st else Inr binlogs)"
| "pull_loop uninited (Inr explog # cursor) binlogs currId =
     (let tmpId = txnOf explog;
          currId1 = (if currId = uninited then tmpId else currId)
      in if 1000 \<le> length binlogs \<and> tmpId \<noteq> currId1 then Inr binlogs
         else pull_loop uninited cursor (binlogs @ [explog]) tmpId)"

text \<open>The reply: lines 246 to 261.\<close>

definition pull_reply :: "('rk, 'rv) Env \<Rightarrow> 64 word \<Rightarrow> ReplLog list \<Rightarrow> Fmt list" where
  "pull_reply env binlogPos binlogs =
     (if length binlogs = 0
        then [FmtMultiBulkLen 2, FmtLongLong binlogPos, FmtMultiBulkLen 0]
      else [FmtMultiBulkLen (2 * length binlogs + 1), FmtLongLong (txnOf (last binlogs) + 1)]
           @ concat (map (\<lambda>v. [FmtBulk (fst (ReplLog_encode env v)),
                                FmtBulk (snd (ReplLog_encode env v))]) binlogs))"

definition PullBinlogs_run ::
  "('rk, 'rv) Env \<Rightarrow> Session \<Rightarrow> ServerEntry \<Rightarrow> Fmt list Outcome \<times> ServerEntry" where
  "PullBinlogs_run env sess svr =
     (if length (getArgs sess) \<le> 1 then (OutOfRange, svr) else
      (case stoul env (getArgs sess ! 1) of
        Inl st \<Rightarrow> (Error st, svr)
      | Inr exptStoreId \<Rightarrow>
      (if length (getArgs sess) \<le> 2 then (OutOfRange, svr) else
      (case stoul env (getArgs sess ! 2) of
        Inl st \<Rightarrow> (Error st, svr)
      | Inr binlogPos \<Rightarrow>
      (if getKVStoreCount svr \<le> unat exptStoreId
        then (Error (ERR_PARSEOPT, ''invalid storeId''), svr) else
      (case getDb env svr (unat exptStoreId) LOCK_IS False of
        (Inl st, svr1) \<Rightarrow> (Error st, svr1)
      | (Inr store, svr1) \<Rightarrow>
      (case createTransaction env svr1 store of
        (Inl st, svr2) \<Rightarrow> (Error st, svr2)
      | (Inr txn, svr2) \<Rightarrow>
      (case pull_loop (TXNID_UNINITED env) (createBinlogCursor env svr2 txn binlogPos) []
             (TXNID_UNINITED env) of
        Inl st \<Rightarrow> (Error st, svr2)
      | Inr binlogs \<Rightarrow> (Value (pull_reply env binlogPos binlogs), svr2)))))))))"

subsection \<open>RestoreBinlogCommand\<close>

text \<open>
  Modelled from the spec: \<^verbatim>\<open>Transaction::setKV\<close>, \<^verbatim>\<open>Transaction::delKV\<close> and
  \<^verbatim>\<open>Transaction::commit\<close> (``setKV(keyBytes, valueBytes, timestamp) -> Result'',
  ``delKV(keyBytes, timestamp) -> Result'', ``commit() -> sequenceId | Error''; a
  transaction that is not committed is rolled back). A write is buffered in the
  transaction; \<^verbatim>\<open>commit\<close> applies the buffered writes to the store in order.
\<close>

definition setKV ::
  "('rk, 'rv) Env \<Rightarrow> Transaction \<Rightarrow> string \<Rightarrow> string \<Rightarrow> 32 word \<Rightarrow> Status \<times> Transaction" where
  "setKV env txn k v ts =
     (if ok (setKVStatus env k v)
        then (setKVStatus env k v, txn\<lparr>writes := writes txn @ [(k, Some v)]\<rparr>)
      else (setKVStatus env k v, txn))"

definition delKV ::
  "('rk, 'rv) Env \<Rightarrow> Transaction \<Rightarrow> string \<Rightarrow> 32 word \<Rightarrow> Status \<times> Transaction" where
  "delKV env txn k ts =
     (if ok (delKVStatus env k)
        then (delKVStatus env k, txn\<lparr>writes := writes txn @ [(k, None)]\<rparr>)
      else (delKVStatus env k, txn))"

definition applyWrites :: "(string \<times> string option) list \<Rightarrow> KVStore \<Rightarrow> KVStore" where
  "applyWrites ws store = store\<lparr>table := fold (\<lambda>w m. m(fst w := snd w)) ws (table store)\<rparr>"

definition commit ::
  "('rk, 'rv) Env \<Rightarrow> ServerEntry \<Rightarrow> Transaction \<Rightarrow> (Status + 64 word) \<times> ServerEntry" where
  "commit env svr txn =
     (case commitResult env (txnStore txn) of
        Inl st \<Rightarrow> (Inl st, svr)
      | Inr commitId \<Rightarrow>
          (Inr commitId,
           svr\<lparr>stores := (stores svr)[txnStore txn :=
                  applyWrites (writes txn) (stores svr ! txnStore txn)]\<rparr>))"

text \<open>
  The decoding loop, lines 304 to 310, over the arguments from index 2 on. The
  second equation is the read of \<^verbatim>\<open>args[i+1]\<close> past the end of the vector.
\<close>

fun restore_decode ::
  "('rk, 'rv) Env \<Rightarrow> string list \<Rightarrow> ReplLog list \<Rightarrow> ReplLog list Outcome" where
  "restore_decode env [] logs = Value logs"
| "restore_decode env [k] logs = OutOfRange"
| "restore_decode env (k # v # rest) logs =
     (case ReplLog_decode env k v of
        Inl st \<Rightarrow> Error st
      | Inr kv \<Rightarrow> restore_decode env rest (logs @ [kv]))"

text \<open>
  The replay loop, lines 331 to 370. \<open>Inl\<close> is the status the command returns with,
  leaving the transaction uncommitted; \<open>Inr\<close> is the transaction after the last record.
\<close>

fun restore_replay ::
  "('rk, 'rv) Env \<Rightarrow> ReplLog list \<Rightarrow> Transaction \<Rightarrow> Status + Transaction" where
  "restore_replay env [] txn = Inr txn"
| "restore_replay env (kv # logs) txn =
     (case RecordKey_decode env (getOpKey (getReplLogValue kv)) of
        Inl st \<Rightarrow> Inl st
      | Inr expRk \<Rightarrow>
          (case getOp (getReplLogValue kv) of
             REPL_OP_SET \<Rightarrow>
               (case RecordValue_decode env (getOpValue (getReplLogValue kv)) of
                  Inl st \<Rightarrow> Inl st
                | Inr expRv \<Rightarrow>
                    (case setKV env txn (RecordKey_encode env expRk)
                            (RecordValue_encode env expRv) 0 of
                       (s, txn1) \<Rightarrow>
                         if \<not> ok s then Inl (ERR_INTERNAL, toString env s)
                         else restore_replay env logs txn1))
           | REPL_OP_DEL \<Rightarrow>
               (case delKV env txn (RecordKey_encode env expRk) 0 of
                  (s, txn1) \<Rightarrow>
                    if \<not> ok s then Inl (ERR_INTERNAL, toString env s)
                    else restore_replay env logs txn1)
           | REPL_OP_OTHER n \<Rightarrow> Inl (ERR_PARSEOPT, ''invalid replop'')))"

definition RestoreBinlog_run ::
  "('rk, 'rv) Env \<Rightarrow> Session \<Rightarrow> ServerEntry \<Rightarrow> Fmt list Outcome \<times> ServerEntry" where
  "RestoreBinlog_run env sess svr =
     (if length (getArgs sess) mod 2 \<noteq> 0
        then (Error (ERR_PARSEOPT, ''invalid param len''), svr) else
      (if length (getArgs sess) \<le> 1 then (OutOfRange, svr) else
      (case stoul env (getArgs sess ! 1) of
        Inl st \<Rightarrow> (Error st, svr)
      | Inr storeId \<Rightarrow>
      (if getKVStoreCount svr \<le> unat storeId
        then (Error (ERR_PARSEOPT, ''invalid storeid''), svr) else
      (case restore_decode env (drop 2 (getArgs sess)) [] of
        Error st \<Rightarrow> (Error st, svr)
      | Abort msg \<Rightarrow> (Abort msg, svr)
      | OutOfRange \<Rightarrow> (OutOfRange, svr)
      | Value logs \<Rightarrow>
      (case logs of
        [] \<Rightarrow> (OutOfRange, svr)
      | front # others \<Rightarrow>
      (if list_ex (\<lambda>kv. txnOf kv \<noteq> txnOf front) logs
        then (Error (ERR_PARSEOPT, ''txn id not all the same''), svr) else
      (case getDb env svr (unat storeId) LOCK_IX False of
        (Inl st, svr1) \<Rightarrow> (Error st, svr1)
      | (Inr store, svr1) \<Rightarrow>
      (case createTransaction env svr1 store of
        (Inl st, svr2) \<Rightarrow> (Error st, svr2)
      | (Inr txn, svr2) \<Rightarrow>
      (case restore_replay env logs txn of
        Inl st \<Rightarrow> (Error st, svr2)
      | Inr txn1 \<Rightarrow>
      (case commit env svr2 txn1 of
        (Inr commitId, svr3) \<Rightarrow> (Value [FmtOK], svr3)
      | (Inl st, svr3) \<Rightarrow> (Error st, svr3))))))))))))"

subsection \<open>ApplyBinlogsCommand\<close>

text \<open>\<^verbatim>\<open>m[k] = v\<close> on a \<^verbatim>\<open>std::map\<close>: the entry is overwritten, or inserted at its
  place in the key order.\<close>

fun map_assign :: "'k::linorder \<Rightarrow> 'v \<Rightarrow> ('k \<times> 'v) list \<Rightarrow> ('k \<times> 'v) list" where
  "map_assign k v [] = [(k, v)]"
| "map_assign k v ((k1, v1) # m) =
     (if k < k1 then (k, v) # (k1, v1) # m
      else if k = k1 then (k, v) # m
      else (k1, v1) # map_assign k v m)"

text \<open>\<^verbatim>\<open>m[k].emplace_back(x)\<close>: \<^verbatim>\<open>operator[]\<close> makes an empty list where there is no
  entry.\<close>

definition map_emplace_back ::
  "'k::linorder \<Rightarrow> 'a \<Rightarrow> ('k \<times> 'a list) list \<Rightarrow> ('k \<times> 'a list) list" where
  "map_emplace_back k x m =
     map_assign k ((case map_of m k of None \<Rightarrow> [] | Some l \<Rightarrow> l) @ [x]) m"

text \<open>Lines 427 to 432: one decoded record enters \<^verbatim>\<open>binlogGroup\<close>.\<close>

definition group_add :: "ReplLog \<Rightarrow> BinlogGroup \<Rightarrow> BinlogGroup" where
  "group_add logkv binlogGroup =
     (let txnId = txnOf logkv;
          g1 = (if map_of binlogGroup txnId = None then map_assign txnId [] binlogGroup
                else binlogGroup)
      in map_emplace_back txnId logkv g1)"

text \<open>The decoding loop, lines 422 to 433, over the arguments from index 2 on.\<close>

fun apply_decode ::
  "('rk, 'rv) Env \<Rightarrow> string list \<Rightarrow> BinlogGroup \<Rightarrow> BinlogGroup Outcome" where
  "apply_decode env [] binlogGroup = Value binlogGroup"
| "apply_decode env [k] binlogGroup = OutOfRange"
| "apply_decode env (k # v # rest) binlogGroup =
     (case ReplLog_decode env k v of
        Inl st \<Rightarrow> Error st
      | Inr logkv \<Rightarrow> apply_decode env rest (group_add logkv binlogGroup))"

text \<open>
  The framing loop, lines 434 to 450: \<open>Some\<close> is the message of the \<^verbatim>\<open>INVARIANT\<close> or
  \<^verbatim>\<open>LOG(FATAL)\<close> that aborts the process, \<open>None\<close> is the end of the loop.
\<close>

fun check_framing :: "('rk, 'rv) Env \<Rightarrow> BinlogGroup \<Rightarrow> string option" where
  "check_framing env [] = None"
| "check_framing env ((txnId, logList) # rest) =
     (if length logList < 1 then Some ''INVARIANT logList.second.size() >= 1''
      else if (getFlag (getReplLogKey (hd logList)) AND REPL_GROUP_START env) = 0
        then Some ''first record not marked begin''
      else if (getFlag (getReplLogKey (last logList)) AND REPL_GROUP_END env) = 0
        then Some ''last record not marked end''
      else check_framing env rest)"

text \<open>
  Modelled from the spec: \<^verbatim>\<open>ReplManager::applyBinlogs\<close> (``applyBinlogs(shardId,
  requesterIdentity, groupedBatches) -> Result''). The model records what the manager
  is handed; the replay itself is the manager's code, not this file's.
\<close>

definition applyBinlogs ::
  "('rk, 'rv) Env \<Rightarrow> ServerEntry \<Rightarrow> nat \<Rightarrow> nat \<Rightarrow> BinlogGroup \<Rightarrow> Status \<times> ServerEntry" where
  "applyBinlogs env svr storeId sid binlogGroup =
     (applyBinlogsStatus env storeId sid binlogGroup,
      svr\<lparr>applied := applied svr @ [(storeId, sid, binlogGroup)]\<rparr>)"

definition ApplyBinlogs_run ::
  "('rk, 'rv) Env \<Rightarrow> Session \<Rightarrow> ServerEntry \<Rightarrow> Fmt list Outcome \<times> ServerEntry" where
  "ApplyBinlogs_run env sess svr =
     (if length (getArgs sess) \<le> 1 then (OutOfRange, svr) else
      (case stoul env (getArgs sess ! 1) of
        Inl st \<Rightarrow> (Error st, svr)
      | Inr exptStoreId \<Rightarrow>
      (if getKVStoreCount svr \<le> unat exptStoreId
        then (Error (ERR_PARSEOPT, ''invalid storeId''), svr) else
      (case apply_decode env (drop 2 (getArgs sess)) [] of
        Error st \<Rightarrow> (Error st, svr)
      | Abort msg \<Rightarrow> (Abort msg, svr)
      | OutOfRange \<Rightarrow> (OutOfRange, svr)
      | Value binlogGroup \<Rightarrow>
      (case check_framing env binlogGroup of
        Some msg \<Rightarrow> (Abort msg, svr)
      | None \<Rightarrow>
      (case getDb env svr (unat exptStoreId) LOCK_IX False of
        (Inl st, svr1) \<Rightarrow> (Error st, svr1)
      | (Inr store, svr1) \<Rightarrow>
      (case applyBinlogs env svr1 (unat exptStoreId) (sessId sess) binlogGroup of
        (s, svr2) \<Rightarrow>
          if ok s then (Value [FmtOK], svr2) else (Error s, svr2))))))))"

subsection \<open>SlaveofCommand\<close>

text \<open>
  Modelled from the spec: \<^verbatim>\<open>ReplManager::changeReplSource\<close> (``changeReplSource(shardId,
  host, port, sourceShardId) -> Result'', which sets the shard's source descriptor).
  A refused change leaves the descriptor as it was.
\<close>

definition changeReplSource ::
  "('rk, 'rv) Env \<Rightarrow> ServerEntry \<Rightarrow> nat \<Rightarrow> string \<Rightarrow> 64 word \<Rightarrow> nat \<Rightarrow> Status \<times> ServerEntry" where
  "changeReplSource env svr storeId ip port sourceStoreId =
     (if ok (changeReplSourceStatus env storeId ip port sourceStoreId)
        then (changeReplSourceStatus env storeId ip port sourceStoreId,
              svr\<lparr>replSource := (replSource svr)[storeId := (ip, port, sourceStoreId)]\<rparr>)
      else (changeReplSourceStatus env storeId ip port sourceStoreId, svr))"

text \<open>
  The loop over all stores, lines 492 to 505 of \<^verbatim>\<open>runSlaveofSomeOne\<close>, over the store
  ids still to visit.
\<close>

fun slaveofSomeOne_all ::
  "('rk, 'rv) Env \<Rightarrow> string \<Rightarrow> 64 word \<Rightarrow> nat list \<Rightarrow> ServerEntry \<Rightarrow>
     Fmt list Outcome \<times> ServerEntry" where
  "slaveofSomeOne_all env ip port [] svr = (Value [FmtOK], svr)"
| "slaveofSomeOne_all env ip port (i # rest) svr =
     (case getDb env svr i LOCK_X True of
        (Inl st, svr1) \<Rightarrow> (Error st, svr1)
      | (Inr store, svr1) \<Rightarrow>
          if \<not> isOpen (stores svr1 ! store) then slaveofSomeOne_all env ip port rest svr1
          else (case changeReplSource env svr1 i ip port i of
                  (s, svr2) \<Rightarrow>
                    if \<not> ok s then (Error s, svr2)
                    else slaveofSomeOne_all env ip port rest svr2))"

text \<open>The loop over all stores, lines 568 to 581 of \<^verbatim>\<open>runSlaveofNoOne\<close>.\<close>

fun slaveofNoOne_all ::
  "('rk, 'rv) Env \<Rightarrow> nat list \<Rightarrow> ServerEntry \<Rightarrow> Fmt list Outcome \<times> ServerEntry" where
  "slaveofNoOne_all env [] svr = (Value [FmtOK], svr)"
| "slaveofNoOne_all env (i # rest) svr =
     (case getDb env svr i LOCK_X True of
        (Inl st, svr1) \<Rightarrow> (Error st, svr1)
      | (Inr store, svr1) \<Rightarrow>
          if \<not> isOpen (stores svr1 ! store) then slaveofNoOne_all env rest svr1
          else (case changeReplSource env svr1 i [] 0 0 of
                  (s, svr2) \<Rightarrow>
                    if \<not> ok s then (Error s, svr2)
                    else slaveofNoOne_all env rest svr2))"

definition runSlaveofSomeOne ::
  "('rk, 'rv) Env \<Rightarrow> Session \<Rightarrow> ServerEntry \<Rightarrow> Fmt list Outcome \<times> ServerEntry" where
  "runSlaveofSomeOne env sess svr =
     (if length (getArgs sess) \<le> 2 then (OutOfRange, svr) else
      (case std_stoul env (getArgs sess ! 2) of
        Inl what \<Rightarrow> (Error (ERR_PARSEPKT, what), svr)
      | Inr port \<Rightarrow>
      (if length (getArgs sess) = 3
        then slaveofSomeOne_all env (getArgs sess ! 1) port [0 ..< getKVStoreCount svr] svr
      else if length (getArgs sess) = 5 then
        (case std_stoul env (getArgs sess ! 3) of
          Inl what \<Rightarrow> (Error (ERR_PARSEPKT, what), svr)
        | Inr storeId \<Rightarrow>
        (case std_stoul env (getArgs sess ! 4) of
          Inl what \<Rightarrow> (Error (ERR_PARSEPKT, what), svr)
        | Inr sourceStoreId \<Rightarrow>
        (if getKVStoreCount svr \<le> unat storeId \<or> getKVStoreCount svr \<le> unat sourceStoreId
          then (Error (ERR_PARSEPKT, ''invalid storeId''), svr) else
        (case getDb env svr (unat storeId) LOCK_X False of
          (Inl st, svr1) \<Rightarrow> (Error st, svr1)
        | (Inr store, svr1) \<Rightarrow>
        (case changeReplSource env svr1 (unat storeId) (getArgs sess ! 1) port
                (unat sourceStoreId) of
          (s, svr2) \<Rightarrow>
            if ok s then (Value [FmtOK], svr2) else (Error s, svr2))))))
      else (Error (ERR_PARSEPKT, ''bad argument num''), svr))))"

definition runSlaveofNoOne ::
  "('rk, 'rv) Env \<Rightarrow> Session \<Rightarrow> ServerEntry \<Rightarrow> Fmt list Outcome \<times> ServerEntry" where
  "runSlaveofNoOne env sess svr =
     (if length (getArgs sess) = 4 then
        (case std_stoul env (getArgs sess ! 3) of
          Inl what \<Rightarrow> (Error (ERR_PARSEPKT, what), svr)
        | Inr storeId \<Rightarrow>
        (if getKVStoreCount svr \<le> unat storeId
          then (Error (ERR_PARSEPKT, ''invalid storeId''), svr) else
        (case getDb env svr (unat storeId) LOCK_X False of
          (Inl st, svr1) \<Rightarrow> (Error st, svr1)
        | (Inr store, svr1) \<Rightarrow>
        (case changeReplSource env svr1 (unat storeId) [] 0 0 of
          (s, svr2) \<Rightarrow>
            if ok s then (Value [FmtOK], svr2) else (Error s, svr2)))))
      else slaveofNoOne_all env [0 ..< getKVStoreCount svr] svr)"

definition Slaveof_run ::
  "('rk, 'rv) Env \<Rightarrow> Session \<Rightarrow> ServerEntry \<Rightarrow> Fmt list Outcome \<times> ServerEntry" where
  "Slaveof_run env sess svr =
     (if length (getArgs sess) < 3 then (Abort ''INVARIANT args.size() >= size_t(3)'', svr)
      else if toLower env (getArgs sess ! 1) = ''no'' \<and> toLower env (getArgs sess ! 2) = ''one''
        then runSlaveofNoOne env sess svr
      else runSlaveofSomeOne env sess svr)"

subsection \<open>Predicates used in the statements\<close>

text \<open>
  Where the loop of \<^verbatim>\<open>pullbinlogs\<close> may stop, given the records collected and what
  is left of the cursor: the cursor is exhausted, or at least 1000 records are
  collected and the next record is of another transaction than the last collected.
\<close>

fun pull_stop :: "ReplLog list \<Rightarrow> BinlogCursor \<Rightarrow> bool" where
  "pull_stop binlogs [] = True"
| "pull_stop binlogs (Inl st # rest) = (code st = ERR_EXHAUST)"
| "pull_stop binlogs (Inr r # rest) =
     (1000 \<le> length binlogs \<and> txnOf r \<noteq> txnOf (last binlogs))"

text \<open>The transaction ids of a record list, each once, in the order of first
  appearance: the arrival order of the batches.\<close>

fun first_seen :: "'a list \<Rightarrow> 'a list" where
  "first_seen [] = []"
| "first_seen (x # xs) = x # filter (\<lambda>y. y \<noteq> x) (first_seen xs)"

text \<open>The records of transaction \<open>t\<close> among \<open>logs\<close>, in their order.\<close>

definition txnGroup :: "64 word \<Rightarrow> ReplLog list \<Rightarrow> ReplLog list" where
  "txnGroup t logs = filter (\<lambda>r. txnOf r = t) logs"

text \<open>The records a flat list of keys and values decodes to, in arrival order;
  \<open>None\<close> when a pair does not decode or a key is left without its value.\<close>

fun decoded :: "('rk, 'rv) Env \<Rightarrow> string list \<Rightarrow> ReplLog list option" where
  "decoded env [] = Some []"
| "decoded env [k] = None"
| "decoded env (k # v # rest) =
     (case ReplLog_decode env k v of
        Inl st \<Rightarrow> None
      | Inr r \<Rightarrow> map_option ((#) r) (decoded env rest))"

text \<open>The batches of a record list in ascending order of transaction id, each with its
  records in arrival order.\<close>

definition ascending_batches :: "ReplLog list \<Rightarrow> BinlogGroup" where
  "ascending_batches logs =
     map (\<lambda>t. (t, txnGroup t logs)) (sorted_list_of_set (txnOf ` set logs))"

text \<open>The invariant of the grouping loop of \<^verbatim>\<open>applybinlogs\<close>: after the records
  \<open>logs\<close>, \<^verbatim>\<open>binlogGroup\<close> has its keys in strictly ascending order and holds, under each
  transaction id of \<open>logs\<close>, the records of that transaction in arrival order.\<close>

definition grouped_inv :: "BinlogGroup \<Rightarrow> ReplLog list \<Rightarrow> bool" where
  "grouped_inv g logs =
     (sorted_wrt (<) (map fst g) \<and>
      (\<forall>t. map_of g t = (if t \<in> txnOf ` set logs then Some (txnGroup t logs) else None)))"

text \<open>
  What a change of all stores that is refused at store \<open>k\<close> returns and leaves: the
  status \<open>st\<close>; the stores as they were; the exclusive locks of the stores 0 to \<open>k\<close>,
  taken in that order; and, for every store but \<open>k\<close>, the descriptor \<open>desc j\<close> where
  \<open>j\<close> is before \<open>k\<close> and open, and the descriptor it had otherwise.
\<close>

definition bulk_first_error ::
  "ServerEntry \<Rightarrow> nat \<Rightarrow> (nat \<Rightarrow> string \<times> 64 word \<times> nat) \<Rightarrow> Status \<Rightarrow>
     Fmt list Outcome \<times> ServerEntry \<Rightarrow> bool" where
  "bulk_first_error svr k desc st res =
     (fst res = Error st
      \<and> stores (snd res) = stores svr
      \<and> locks (snd res) = locks svr @ map (\<lambda>i. (i, LOCK_X)) [0 ..< Suc k]
      \<and> length (replSource (snd res)) = length (replSource svr)
      \<and> (\<forall>j < length (replSource svr). j \<noteq> k \<longrightarrow>
            replSource (snd res) ! j
              = (if j < k \<and> isOpen (stores svr ! j) then desc j else replSource svr ! j)))"

subsection \<open>A concrete environment and server\<close>

text \<open>
  An instance of the parameters on which the commands can be run: decimal integer
  parsing, a two-character record key (transaction id and flags, one digit each), a
  value whose first character is the operation, \<^verbatim>\<open>TXNID_UNINITED = 0\<close>,
  \<^verbatim>\<open>REPL_GROUP_START = 1\<close>, \<^verbatim>\<open>REPL_GROUP_END = 2\<close>, and collaborators that never fail.
\<close>

definition okStatus :: Status where
  "okStatus = (ERR_OK, [])"

definition mkLog :: "64 word \<Rightarrow> 16 word \<Rightarrow> ReplOp \<Rightarrow> string \<Rightarrow> string \<Rightarrow> ReplLog" where
  "mkLog t f opr k v =
     \<lparr>getReplLogKey = \<lparr>getTxnId = t, getFlag = f\<rparr>,
      getReplLogValue = \<lparr>getOp = opr, getOpKey = k, getOpValue = v\<rparr>\<rparr>"

definition digits :: "string \<Rightarrow> nat option" where
  "digits s =
     (if s \<noteq> [] \<and> list_all (\<lambda>c. (48::nat) \<le> of_char c \<and> of_char c \<le> (57::nat)) s
        then Some (foldl (\<lambda>n c. 10 * n + (of_char c - 48)) 0 s)
      else None)"

definition demoDecode :: "string \<Rightarrow> string \<Rightarrow> Status + ReplLog" where
  "demoDecode k v =
     (case (k, v) of
        ([t, f], c # rest) \<Rightarrow>
          Inr (mkLog (of_char t - 48) (of_char f - 48)
                 (if c = CHR ''S'' then REPL_OP_SET
                  else if c = CHR ''D'' then REPL_OP_DEL
                  else REPL_OP_OTHER (of_char c))
                 rest rest)
      | _ \<Rightarrow> Inl (ERR_OTHER 2, ''bad record''))"

definition demoEnv :: "(string, string) Env" where
  "demoEnv =
     \<lparr>stoul = (\<lambda>s. case digits s of None \<Rightarrow> Inl (ERR_OTHER 1, ''not a number'')
                                   | Some n \<Rightarrow> Inr (of_nat n)),
      std_stoul = (\<lambda>s. case digits s of None \<Rightarrow> Inl ''stoul'' | Some n \<Rightarrow> Inr (of_nat n)),
      toLower = (\<lambda>s. s),
      toString = snd,
      ReplLog_decode = demoDecode,
      ReplLog_encode = (\<lambda>r. (getOpKey (getReplLogValue r), getOpValue (getReplLogValue r))),
      RecordKey_decode = (\<lambda>s. if s = [] then Inl (ERR_OTHER 3, ''bad key'') else Inr s),
      RecordKey_encode = (\<lambda>s. s),
      RecordValue_decode = Inr,
      RecordValue_encode = (\<lambda>s. s),
      TXNID_UNINITED = 0,
      REPL_GROUP_START = 1,
      REPL_GROUP_END = 2,
      lockStatus = (\<lambda>i m. okStatus),
      createTransactionStatus = (\<lambda>i. okStatus),
      cursorFault = (\<lambda>i p. None),
      setKVStatus = (\<lambda>k v. okStatus),
      delKVStatus = (\<lambda>k. okStatus),
      commitResult = (\<lambda>i. Inr 1),
      applyBinlogsStatus = (\<lambda>i s g. okStatus),
      changeReplSourceStatus = (\<lambda>i h p s. okStatus)\<rparr>"

definition demoStore :: "ReplLog list \<Rightarrow> KVStore" where
  "demoStore logs = \<lparr>isOpen = True, table = Map.empty, binlog = logs\<rparr>"

definition demoServer :: "KVStore list \<Rightarrow> ServerEntry" where
  "demoServer ss =
     \<lparr>stores = ss, locks = [], opened = 0,
      replSource = replicate (length ss) ([], 0, 0), applied = []\<rparr>"

definition demoSession :: "string list \<Rightarrow> Session" where
  "demoSession a = \<lparr>getArgs = a, sessId = 42\<rparr>"


definition demoLog :: "ReplLog list" where
  "demoLog =
     [mkLog 10 1 REPL_OP_SET ''a'' ''1'', mkLog 10 0 REPL_OP_SET ''b'' ''2'',
      mkLog 10 2 REPL_OP_DEL ''a'' [], mkLog 11 1 REPL_OP_SET ''c'' ''3'',
      mkLog 11 2 REPL_OP_SET ''d'' ''4'']"


text \<open>A replication manager that refuses to change the source of store 2, and a server
  of four stores of which store 1 is not open.\<close>

definition refusingEnv :: "(string, string) Env" where
  "refusingEnv =
     demoEnv\<lparr>changeReplSourceStatus :=
               (\<lambda>i h p s. if i = 2 then (ERR_INTERNAL, ''refused'') else okStatus)\<rparr>"

definition fourStores :: ServerEntry where
  "fourStores =
     demoServer [demoStore [], (demoStore [])\<lparr>isOpen := False\<rparr>, demoStore [], demoStore []]"

section \<open>Properties\<close>

lemmas demo_defs =
  demoEnv_def demoSession_def demoServer_def demoStore_def digits_def okStatus_def mkLog_def
  demoLog_def demoDecode_def ok_def code_def getKVStoreCount_def

lemmas pull_defs =
  PullBinlogs_run_def getDb_def createTransaction_def createBinlogCursor_def committedFrom_def
  pull_reply_def

subsection \<open>The collaborators touch only their own part of the server\<close>

lemma getDb_frame:
  "getDb env svr i mode c = (r, svr1) \<Longrightarrow>
     stores svr1 = stores svr \<and> replSource svr1 = replSource svr \<and>
     applied svr1 = applied svr \<and> opened svr1 = opened svr"
  by (auto simp: getDb_def split: if_splits)

lemma createTransaction_frame:
  "createTransaction env svr s = (r, svr1) \<Longrightarrow>
     stores svr1 = stores svr \<and> replSource svr1 = replSource svr \<and>
     applied svr1 = applied svr \<and> locks svr1 = locks svr"
  by (auto simp: createTransaction_def split: if_splits)

subsection \<open>pullbinlogs\<close>

text \<open>
  C9. \<^verbatim>\<open>pullbinlogs\<close> is read-only. Whatever the arguments, the parameters and the
  outcome (a reply, a returned status, an out-of-range read), every store of the server
  is after the call what it was before: its key/value table and its binlog. The model
  of \<^verbatim>\<open>PullBinlogsCommand::run\<close> opens a transaction and a cursor on it and calls
  neither \<^verbatim>\<open>setKV\<close>, \<^verbatim>\<open>delKV\<close> nor \<^verbatim>\<open>commit\<close>; the replication manager's source
  descriptors and the batches handed to it are unchanged as well. Only the lock log
  and the count of opened transactions may grow.
\<close>

theorem pull_read_only:
  "stores (snd (PullBinlogs_run env sess svr)) = stores svr
   \<and> replSource (snd (PullBinlogs_run env sess svr)) = replSource svr
   \<and> applied (snd (PullBinlogs_run env sess svr)) = applied svr"
  unfolding PullBinlogs_run_def
  by (auto split: sum.splits prod.splits dest!: getDb_frame createTransaction_frame)

subsection \<open>The loop of pullbinlogs\<close>

lemma drained_records: "drained (map Inr xs @ rest) = xs @ drained rest"
  by (induction xs) auto

lemma pull_loop_prefix:
  "pull_loop u cursor acc cur = Inr batch \<Longrightarrow> acc = [] \<or> cur = txnOf (last acc) \<Longrightarrow>
     \<exists>rest. map Inr acc @ cursor = map Inr batch @ rest \<and> pull_stop batch rest"
proof (induction cursor arbitrary: acc cur)
  case Nil
  then show ?case by simp
next
  case (Cons a cursor)
  show ?case
  proof (cases a)
    case (Inl st)
    with Cons.prems show ?thesis
      by (auto split: if_splits)
  next
    case (Inr r)
    show ?thesis
    proof (cases "1000 \<le> length acc \<and> txnOf r \<noteq> (if cur = u then txnOf r else cur)")
      case True
      with Cons.prems Inr have b: "batch = acc" by (simp add: Let_def)
      from True have "acc \<noteq> []" by auto
      with Cons.prems(2) have "cur = txnOf (last acc)" by simp
      with True b Inr show ?thesis by (auto split: if_splits)
    next
      case False
      with Cons.prems Inr have "pull_loop u cursor (acc @ [r]) (txnOf r) = Inr batch"
        by (simp add: Let_def)
      from Cons.IH[OF this] obtain rest
        where "map Inr (acc @ [r]) @ cursor = map Inr batch @ rest" "pull_stop batch rest"
        by auto
      with Inr show ?thesis by auto
    qed
  qed
qed

lemma pull_loop_first:
  "pull_loop u (Inr r # cursor) [] cur = Inr batch \<Longrightarrow> batch \<noteq> []"
proof -
  assume a: "pull_loop u (Inr r # cursor) [] cur = Inr batch"
  then have "pull_loop u cursor [r] (txnOf r) = Inr batch" by (simp add: Let_def)
  from pull_loop_prefix[OF this] obtain rest
    where "map Inr [r] @ cursor = map Inr batch @ rest" "pull_stop batch rest"
    by auto
  then show ?thesis by auto
qed

text \<open>
  The cap of 1000 records is soft. After 1000 records of one transaction the loop
  stops before the first record of another; after 999 it takes that record too and
  goes on. A run of records of one transaction is never cut.
\<close>

lemma pull_loop_same_txn:
  "cur = u \<or> cur = txnOf a \<Longrightarrow>
     pull_loop u (replicate n (Inr a) @ cursor) acc cur
       = pull_loop u cursor (acc @ replicate n a) (if n = 0 then cur else txnOf a)"
proof (induction n arbitrary: acc cur)
  case 0
  then show ?case by simp
next
  case (Suc n)
  have "pull_loop u (replicate (Suc n) (Inr a) @ cursor) acc cur
      = pull_loop u (replicate n (Inr a) @ cursor) (acc @ [a]) (txnOf a)"
    using Suc.prems by (auto simp: Let_def)
  also have "\<dots> = pull_loop u cursor ((acc @ [a]) @ replicate n a) (txnOf a)"
    using Suc.IH[of "txnOf a" "acc @ [a]"] by simp
  finally show ?case by (simp add: replicate_app_Cons_same)
qed

lemma pull_loop_stops_at_cap:
  "txnOf a \<noteq> u \<Longrightarrow> txnOf b \<noteq> txnOf a \<Longrightarrow>
     pull_loop u (replicate 1000 (Inr a) @ Inr b # cursor) [] u = Inr (replicate 1000 a)"
  by (simp add: pull_loop_same_txn[where acc = "[]" and cur = u] Let_def)

lemma pull_loop_goes_on_below_cap:
  "txnOf a \<noteq> u \<Longrightarrow> txnOf b \<noteq> txnOf a \<Longrightarrow>
     pull_loop u (replicate 999 (Inr a) @ Inr b # cursor) [] u
       = pull_loop u cursor (replicate 999 a @ [b]) (txnOf b)"
  by (simp add: pull_loop_same_txn[where acc = "[]" and cur = u] Let_def)

lemma sorted_le_last:
  "sorted (map f xs) \<Longrightarrow> x \<in> set xs \<Longrightarrow> f x \<le> f (last xs)"
  by (induction xs) auto

lemma sorted_groups_complete:
  assumes s: "sorted (map txnOf (batch @ drained rest))"
    and st: "pull_stop batch rest"
    and t: "t \<in> txnOf ` set batch"
  shows "txnGroup t (batch @ drained rest) = txnGroup t batch"
proof (cases rest)
  case Nil
  then show ?thesis by simp
next
  case (Cons a rest')
  show ?thesis
  proof (cases a)
    case (Inl e)
    with Cons show ?thesis by simp
  next
    case (Inr r)
    with Cons st have ne: "batch \<noteq> []" and d: "txnOf r \<noteq> txnOf (last batch)" by auto
    from s Cons Inr have s': "sorted (map txnOf batch @ txnOf r # map txnOf (drained rest'))"
      by simp
    from ne have lb: "last batch \<in> set batch" by simp
    from s' lb have "txnOf (last batch) \<le> txnOf r" by (auto simp: sorted_append)
    with d have lt: "txnOf (last batch) < txnOf r" by simp
    from t obtain x where x: "x \<in> set batch" "t = txnOf x" by auto
    from s' have "sorted (map txnOf batch)" by (simp add: sorted_append)
    from sorted_le_last[OF this x(1)] x(2) have le: "t \<le> txnOf (last batch)" by simp
    from s' have "\<forall>y \<in> set (drained rest'). txnOf r \<le> txnOf y"
      by (auto simp: sorted_append)
    with lt le have "\<forall>y \<in> set (drained rest). txnOf y \<noteq> t"
      using Cons Inr by auto
    then have "filter (\<lambda>r. txnOf r = t) (drained rest) = []"
      by (simp add: filter_empty_conv)
    then show ?thesis by (simp add: txnGroup_def)
  qed
qed

lemma createBinlogCursor_stores:
  "stores a = stores b \<Longrightarrow> createBinlogCursor env a txn pos = createBinlogCursor env b txn pos"
proof -
  assume "stores a = stores b"
  then have "committedFrom a (txnStore txn) pos = committedFrom b (txnStore txn) pos"
    by (simp add: committedFrom_def)
  then show ?thesis by (simp add: createBinlogCursor_def split: option.splits)
qed

lemma sorted_committedFrom:
  "sorted (map txnOf (binlog (stores svr ! i))) \<Longrightarrow> sorted (map txnOf (committedFrom svr i pos))"
  by (simp add: committedFrom_def sorted_filter)

lemma sorted_drained_cursor:
  assumes "sorted (map txnOf (binlog (stores svr ! txnStore txn)))"
  shows "sorted (map txnOf (drained (createBinlogCursor env svr txn pos)))"
proof (cases "cursorFault env (txnStore txn) pos")
  case None
  then have "drained (createBinlogCursor env svr txn pos) = committedFrom svr (txnStore txn) pos"
    using drained_records[of "committedFrom svr (txnStore txn) pos" "[]"]
    by (simp add: createBinlogCursor_def)
  with assms show ?thesis by (simp add: sorted_committedFrom)
next
  case (Some a)
  obtain n st where a: "a = (n, st)" by (cases a)
  with Some have "drained (createBinlogCursor env svr txn pos)
      = take n (committedFrom svr (txnStore txn) pos)"
    using drained_records[of "take n (committedFrom svr (txnStore txn) pos)" "[Inl st]"]
    by (simp add: createBinlogCursor_def)
  moreover have "sorted (take n (map txnOf (committedFrom svr (txnStore txn) pos)))"
    using assms sorted_committedFrom sorted_wrt_take by blast
  ultimately show ?thesis by (simp add: take_map)
qed

lemma pull_run_value:
  assumes run: "fst (PullBinlogs_run env sess svr) = Value reply"
    and sid: "stoul env (getArgs sess ! 1) = Inr sid"
    and pos: "stoul env (getArgs sess ! 2) = Inr pos"
  shows "\<exists>binlogs.
     pull_loop (TXNID_UNINITED env)
       (createBinlogCursor env svr \<lparr>txnStore = unat sid, writes = []\<rparr> pos) []
       (TXNID_UNINITED env) = Inr binlogs
     \<and> reply = pull_reply env pos binlogs"
proof -
  have l1: "\<not> length (getArgs sess) \<le> 1"
  proof
    assume "length (getArgs sess) \<le> 1"
    then have "fst (PullBinlogs_run env sess svr) = OutOfRange"
      by (simp add: PullBinlogs_run_def)
    with run show False by simp
  qed
  have l2: "\<not> length (getArgs sess) \<le> 2"
  proof
    assume "length (getArgs sess) \<le> 2"
    with l1 sid have "fst (PullBinlogs_run env sess svr) = OutOfRange"
      by (simp add: PullBinlogs_run_def)
    with run show False by simp
  qed
  have v: "\<not> getKVStoreCount svr \<le> unat sid"
  proof
    assume "getKVStoreCount svr \<le> unat sid"
    with l1 l2 sid pos
    have "fst (PullBinlogs_run env sess svr) = Error (ERR_PARSEOPT, ''invalid storeId'')"
      by (simp add: PullBinlogs_run_def)
    with run show False by simp
  qed
  obtain r1 svr1 where g: "getDb env svr (unat sid) LOCK_IS False = (r1, svr1)"
    by (cases "getDb env svr (unat sid) LOCK_IS False")
  from g have s1: "stores svr1 = stores svr" by (auto dest: getDb_frame)
  have "\<exists>store. r1 = Inr store"
  proof (cases r1)
    case (Inl st)
    with l1 l2 v sid pos g have "fst (PullBinlogs_run env sess svr) = Error st"
      by (simp add: PullBinlogs_run_def)
    with run show ?thesis by simp
  qed simp
  then obtain store where r1: "r1 = Inr store" ..
  from g r1 have st: "store = unat sid" by (auto simp: getDb_def split: if_splits)
  obtain r2 svr2 where c: "createTransaction env svr1 (unat sid) = (r2, svr2)"
    by (cases "createTransaction env svr1 (unat sid)")
  from c have s2: "stores svr2 = stores svr1" by (auto dest: createTransaction_frame)
  have "\<exists>txn. r2 = Inr txn"
  proof (cases r2)
    case (Inl e)
    with l1 l2 v sid pos g r1 st c have "fst (PullBinlogs_run env sess svr) = Error e"
      by (simp add: PullBinlogs_run_def)
    with run show ?thesis by simp
  qed simp
  then obtain txn where r2: "r2 = Inr txn" ..
  from c r2 have txn: "txn = \<lparr>txnStore = unat sid, writes = []\<rparr>"
    by (auto simp: createTransaction_def split: if_splits)
  have cur: "createBinlogCursor env svr2 txn pos = createBinlogCursor env svr txn pos"
    by (rule createBinlogCursor_stores) (simp add: s1 s2)
  let ?res = "pull_loop (TXNID_UNINITED env) (createBinlogCursor env svr txn pos) []
       (TXNID_UNINITED env)"
  have eq: "fst (PullBinlogs_run env sess svr)
      = (case ?res of Inl e \<Rightarrow> Error e | Inr binlogs \<Rightarrow> Value (pull_reply env pos binlogs))"
    using l1 l2 v sid pos g r1 st c r2 cur
    by (simp add: PullBinlogs_run_def split: sum.splits)
  show ?thesis
  proof (cases ?res)
    case (Inl e)
    with eq run show ?thesis by simp
  next
    case (Inr binlogs)
    with eq run txn show ?thesis by simp
  qed
qed

text \<open>
  C1. Transaction alignment of a pull batch. Let the position and the store id parse,
  let the binlog of the store be in ascending order of transaction id, and let the
  command return a reply. Then the records collected are a prefix of what the cursor
  answers; the loop stopped where \<open>pull_stop\<close> allows (the cursor is exhausted, or at
  least 1000 records are collected and the next record is of another transaction than
  the last one collected); and for every transaction with a record in the batch, the
  records of that transaction in the batch are all the records of it that the cursor
  delivers when drained.
\<close>

theorem pull_batch_transaction_aligned:
  assumes sid: "stoul env (getArgs sess ! 1) = Inr sid"
    and pos: "stoul env (getArgs sess ! 2) = Inr pos"
    and ord: "sorted (map txnOf (binlog (stores svr ! unat sid)))"
    and run: "fst (PullBinlogs_run env sess svr) = Value reply"
  shows "\<exists>binlogs rest.
      createBinlogCursor env svr \<lparr>txnStore = unat sid, writes = []\<rparr> pos
        = map Inr binlogs @ rest
      \<and> reply = pull_reply env pos binlogs
      \<and> pull_stop binlogs rest
      \<and> (\<forall>t \<in> txnOf ` set binlogs.
            txnGroup t binlogs
              = txnGroup t (drained (createBinlogCursor env svr
                                       \<lparr>txnStore = unat sid, writes = []\<rparr> pos)))"
proof -
  let ?cursor = "createBinlogCursor env svr \<lparr>txnStore = unat sid, writes = []\<rparr> pos"
  from pull_run_value[OF run sid pos] obtain binlogs
    where loop: "pull_loop (TXNID_UNINITED env) ?cursor [] (TXNID_UNINITED env) = Inr binlogs"
      and reply: "reply = pull_reply env pos binlogs"
    by auto
  from pull_loop_prefix[OF loop] obtain rest
    where pre: "?cursor = map Inr binlogs @ rest" and stop: "pull_stop binlogs rest"
    by auto
  have "sorted (map txnOf (drained ?cursor))"
    using ord sorted_drained_cursor[of svr "\<lparr>txnStore = unat sid, writes = []\<rparr>" env pos]
    by simp
  then have srt: "sorted (map txnOf (binlogs @ drained rest))"
    by (simp add: pre drained_records)
  have "\<forall>t \<in> txnOf ` set binlogs. txnGroup t binlogs = txnGroup t (drained ?cursor)"
  proof
    fix t assume "t \<in> txnOf ` set binlogs"
    from sorted_groups_complete[OF srt stop this]
    show "txnGroup t binlogs = txnGroup t (drained ?cursor)"
      by (simp add: pre drained_records)
  qed
  with pre reply stop show ?thesis by blast
qed

theorem pull_batch_transaction_aligned_witness:
  "stoul demoEnv (getArgs (demoSession [''pullbinlogs'', ''0'', ''10'']) ! 1) = Inr 0
   \<and> stoul demoEnv (getArgs (demoSession [''pullbinlogs'', ''0'', ''10'']) ! 2) = Inr 10
   \<and> sorted (map txnOf (binlog (stores (demoServer [demoStore demoLog]) ! unat (0 :: 64 word))))
   \<and> fst (PullBinlogs_run demoEnv (demoSession [''pullbinlogs'', ''0'', ''10''])
             (demoServer [demoStore demoLog]))
       = Value (pull_reply demoEnv 10 demoLog)
   \<and> (\<exists>binlogs rest.
        createBinlogCursor demoEnv (demoServer [demoStore demoLog])
            \<lparr>txnStore = unat (0 :: 64 word), writes = []\<rparr> 10 = map Inr binlogs @ rest
        \<and> pull_reply demoEnv 10 demoLog = pull_reply demoEnv 10 binlogs
        \<and> pull_stop binlogs rest
        \<and> (\<forall>t \<in> txnOf ` set binlogs.
              txnGroup t binlogs
                = txnGroup t (drained (createBinlogCursor demoEnv (demoServer [demoStore demoLog])
                                         \<lparr>txnStore = unat (0 :: 64 word), writes = []\<rparr> 10))))"
proof -
  have h1: "stoul demoEnv (getArgs (demoSession [''pullbinlogs'', ''0'', ''10'']) ! 1) = Inr 0"
    by (simp add: demo_defs)
  have h2: "stoul demoEnv (getArgs (demoSession [''pullbinlogs'', ''0'', ''10'']) ! 2) = Inr 10"
    by (simp add: demo_defs)
  have h3: "sorted (map txnOf (binlog (stores (demoServer [demoStore demoLog]) ! unat (0 :: 64 word))))"
    by (simp add: demo_defs)
  have h4: "fst (PullBinlogs_run demoEnv (demoSession [''pullbinlogs'', ''0'', ''10''])
             (demoServer [demoStore demoLog]))
       = Value (pull_reply demoEnv 10 demoLog)"
    by (simp add: demo_defs pull_defs)
  from pull_batch_transaction_aligned[OF h1 h2 h3 h4] h1 h2 h3 h4 show ?thesis
    by (intro conjI)
qed

text \<open>
  C6. Next position of a non-empty pull. When the first answer of the cursor is a
  record and the command returns a reply, at least one record is collected, the
  collected records are a prefix of the cursor's answers, and the reply is: the
  multi-bulk length \<open>2n + 1\<close>, the transaction id of the last collected record plus
  one (the addition of \<^verbatim>\<open>uint64_t\<close>), and the encoded key and value of every collected
  record, in the cursor's order.
\<close>

theorem pull_next_position:
  assumes sid: "stoul env (getArgs sess ! 1) = Inr sid"
    and pos: "stoul env (getArgs sess ! 2) = Inr pos"
    and first: "createBinlogCursor env svr \<lparr>txnStore = unat sid, writes = []\<rparr> pos
                  = Inr r # cursor"
    and run: "fst (PullBinlogs_run env sess svr) = Value reply"
  shows "\<exists>binlogs rest.
      binlogs \<noteq> []
      \<and> Inr r # cursor = map Inr binlogs @ rest
      \<and> pull_stop binlogs rest
      \<and> reply =
          [FmtMultiBulkLen (2 * length binlogs + 1), FmtLongLong (txnOf (last binlogs) + 1)]
          @ concat (map (\<lambda>v. [FmtBulk (fst (ReplLog_encode env v)),
                               FmtBulk (snd (ReplLog_encode env v))]) binlogs)"
proof -
  from pull_run_value[OF run sid pos] first obtain binlogs
    where loop: "pull_loop (TXNID_UNINITED env) (Inr r # cursor) [] (TXNID_UNINITED env)
                   = Inr binlogs"
      and reply: "reply = pull_reply env pos binlogs"
    by auto
  from pull_loop_first[OF loop] have ne: "binlogs \<noteq> []" .
  from pull_loop_prefix[OF loop] obtain rest
    where "Inr r # cursor = map Inr binlogs @ rest" "pull_stop binlogs rest"
    by auto
  with ne reply show ?thesis
    by (auto simp: pull_reply_def)
qed

theorem pull_next_position_witness:
  "stoul demoEnv (getArgs (demoSession [''pullbinlogs'', ''0'', ''11'']) ! 1) = Inr 0
   \<and> stoul demoEnv (getArgs (demoSession [''pullbinlogs'', ''0'', ''11'']) ! 2) = Inr 11
   \<and> createBinlogCursor demoEnv (demoServer [demoStore demoLog])
        \<lparr>txnStore = unat (0 :: 64 word), writes = []\<rparr> 11
       = Inr (mkLog 11 1 REPL_OP_SET ''c'' ''3'') # [Inr (mkLog 11 2 REPL_OP_SET ''d'' ''4'')]
   \<and> fst (PullBinlogs_run demoEnv (demoSession [''pullbinlogs'', ''0'', ''11''])
             (demoServer [demoStore demoLog]))
       = Value [FmtMultiBulkLen 5, FmtLongLong 12, FmtBulk ''c'', FmtBulk ''3'',
                FmtBulk ''d'', FmtBulk ''4'']
   \<and> (\<exists>binlogs rest.
        binlogs \<noteq> []
        \<and> Inr (mkLog 11 1 REPL_OP_SET ''c'' ''3'') # [Inr (mkLog 11 2 REPL_OP_SET ''d'' ''4'')]
            = map Inr binlogs @ rest
        \<and> pull_stop binlogs rest
        \<and> [FmtMultiBulkLen 5, FmtLongLong 12, FmtBulk ''c'', FmtBulk ''3'',
            FmtBulk ''d'', FmtBulk ''4'']
           = [FmtMultiBulkLen (2 * length binlogs + 1), FmtLongLong (txnOf (last binlogs) + 1)]
             @ concat (map (\<lambda>v. [FmtBulk (fst (ReplLog_encode demoEnv v)),
                                  FmtBulk (snd (ReplLog_encode demoEnv v))]) binlogs))"
proof -
  have h1: "stoul demoEnv (getArgs (demoSession [''pullbinlogs'', ''0'', ''11'']) ! 1) = Inr 0"
    by (simp add: demo_defs)
  have h2: "stoul demoEnv (getArgs (demoSession [''pullbinlogs'', ''0'', ''11'']) ! 2) = Inr 11"
    by (simp add: demo_defs)
  have h3: "createBinlogCursor demoEnv (demoServer [demoStore demoLog])
        \<lparr>txnStore = unat (0 :: 64 word), writes = []\<rparr> 11
       = Inr (mkLog 11 1 REPL_OP_SET ''c'' ''3'') # [Inr (mkLog 11 2 REPL_OP_SET ''d'' ''4'')]"
    by (simp add: demo_defs pull_defs)
  have h4: "fst (PullBinlogs_run demoEnv (demoSession [''pullbinlogs'', ''0'', ''11''])
             (demoServer [demoStore demoLog]))
       = Value [FmtMultiBulkLen 5, FmtLongLong 12, FmtBulk ''c'', FmtBulk ''3'',
                FmtBulk ''d'', FmtBulk ''4'']"
    by (simp add: demo_defs pull_defs)
  from pull_next_position[OF h1 h2 h3 h4] h1 h2 h3 h4 show ?thesis
    by (intro conjI)
qed

text \<open>
  C5, as stated: a pull at the transaction id of the last committed record gets the
  input position back with an empty record list. It does not: the cursor opened at a
  position delivers the records of that transaction. Here the last committed record
  is of transaction 11, the request asks for position 11, and the reply carries
  position 12 and the two records of transaction 11.
\<close>

theorem pull_empty_tail_counterexample:
  "txnOf (last (binlog (stores (demoServer [demoStore demoLog]) ! 0))) = 11
   \<and> stoul demoEnv (getArgs (demoSession [''pullbinlogs'', ''0'', ''11'']) ! 2) = Inr 11
   \<and> fst (PullBinlogs_run demoEnv (demoSession [''pullbinlogs'', ''0'', ''11''])
             (demoServer [demoStore demoLog]))
       = Value [FmtMultiBulkLen 5, FmtLongLong 12, FmtBulk ''c'', FmtBulk ''3'',
                FmtBulk ''d'', FmtBulk ''4'']"
  by (simp add: demo_defs pull_defs)

text \<open>
  C5, amended. When the position is strictly beyond the transaction id of every
  committed record of the store (an open store, whose lock and transaction are
  granted and whose cursor does not fail), the reply carries the input position and
  an empty record list, and the same request on the server the first call leaves gets
  the same reply.
\<close>

theorem pull_empty_tail:
  assumes sid: "stoul env (getArgs sess ! 1) = Inr sid"
    and pos: "stoul env (getArgs sess ! 2) = Inr pos"
    and len: "length (getArgs sess) = 3"
    and valid: "unat sid < getKVStoreCount svr"
    and opn: "isOpen (stores svr ! unat sid)"
    and lock: "ok (lockStatus env (unat sid) LOCK_IS)"
    and txn: "ok (createTransactionStatus env (unat sid))"
    and nofault: "cursorFault env (unat sid) pos = None"
    and beyond: "\<forall>r \<in> set (binlog (stores svr ! unat sid)). txnOf r < pos"
  shows "fst (PullBinlogs_run env sess svr)
           = Value [FmtMultiBulkLen 2, FmtLongLong pos, FmtMultiBulkLen 0]
       \<and> fst (PullBinlogs_run env sess (snd (PullBinlogs_run env sess svr)))
           = Value [FmtMultiBulkLen 2, FmtLongLong pos, FmtMultiBulkLen 0]"
proof -
  have one: "fst (PullBinlogs_run env sess s)
           = Value [FmtMultiBulkLen 2, FmtLongLong pos, FmtMultiBulkLen 0]"
    if st: "stores s = stores svr" for s
  proof -
    from beyond have "filter (\<lambda>r. pos \<le> txnOf r) (binlog (stores svr ! unat sid)) = []"
      by (auto simp: filter_empty_conv)
    with st nofault have "createBinlogCursor env (s\<lparr>locks := l, opened := n\<rparr>)
        \<lparr>txnStore = unat sid, writes = []\<rparr> pos = []" for l n
      by (simp add: createBinlogCursor_def committedFrom_def)
    with sid pos len valid opn lock txn st show ?thesis
      by (simp add: PullBinlogs_run_def getKVStoreCount_def getDb_def createTransaction_def
          pull_reply_def)
  qed
  have "stores (snd (PullBinlogs_run env sess svr)) = stores svr"
    unfolding PullBinlogs_run_def
    by (auto split: sum.splits prod.splits dest!: getDb_frame createTransaction_frame)
  with one show ?thesis by simp
qed

theorem pull_empty_tail_witness:
  "fst (PullBinlogs_run demoEnv (demoSession [''pullbinlogs'', ''0'', ''12''])
          (demoServer [demoStore demoLog]))
     = Value [FmtMultiBulkLen 2, FmtLongLong 12, FmtMultiBulkLen 0]
   \<and> fst (PullBinlogs_run demoEnv (demoSession [''pullbinlogs'', ''0'', ''12''])
            (snd (PullBinlogs_run demoEnv (demoSession [''pullbinlogs'', ''0'', ''12''])
                    (demoServer [demoStore demoLog]))))
     = Value [FmtMultiBulkLen 2, FmtLongLong 12, FmtMultiBulkLen 0]"
proof (rule pull_empty_tail[where sid = 0])
  show "stoul demoEnv (getArgs (demoSession [''pullbinlogs'', ''0'', ''12'']) ! 1) = Inr 0"
    by (simp add: demo_defs)
  show "stoul demoEnv (getArgs (demoSession [''pullbinlogs'', ''0'', ''12'']) ! 2) = Inr 12"
    by (simp add: demo_defs)
  show "length (getArgs (demoSession [''pullbinlogs'', ''0'', ''12''])) = 3"
    by (simp add: demo_defs)
  show "unat (0 :: 64 word) < getKVStoreCount (demoServer [demoStore demoLog])"
    by (simp add: demo_defs)
  show "isOpen (stores (demoServer [demoStore demoLog]) ! unat (0 :: 64 word))"
    by (simp add: demo_defs)
  show "ok (lockStatus demoEnv (unat (0 :: 64 word)) LOCK_IS)"
    by (simp add: demo_defs)
  show "ok (createTransactionStatus demoEnv (unat (0 :: 64 word)))"
    by (simp add: demo_defs)
  show "cursorFault demoEnv (unat (0 :: 64 word)) 12 = None"
    by (simp add: demo_defs)
  show "\<forall>r \<in> set (binlog (stores (demoServer [demoStore demoLog]) ! unat (0 :: 64 word))).
          txnOf r < 12"
    by (simp add: demo_defs)
qed

subsection \<open>restorebinlog\<close>

lemma restore_decode_length:
  "restore_decode env xs acc = Value logs \<Longrightarrow>
     even (length xs) \<and> length logs = length acc + length xs div 2"
  by (induction env xs acc rule: restore_decode.induct) (auto split: sum.splits)

lemma mixed_txn_ids:
  assumes "1 < card (txnOf ` set logs)"
  shows "logs \<noteq> [] \<and> list_ex (\<lambda>kv. txnOf kv \<noteq> txnOf (hd logs)) logs"
proof -
  from assms have ne: "logs \<noteq> []" by auto
  have "list_ex (\<lambda>kv. txnOf kv \<noteq> txnOf (hd logs)) logs"
  proof (rule ccontr)
    assume "\<not> list_ex (\<lambda>kv. txnOf kv \<noteq> txnOf (hd logs)) logs"
    then have "txnOf ` set logs \<subseteq> {txnOf (hd logs)}"
      by (auto simp: list_ex_iff)
    then have "card (txnOf ` set logs) \<le> card {txnOf (hd logs)}"
      by (intro card_mono) auto
    with assms show False by simp
  qed
  with ne show ?thesis by simp
qed

lemma restore_replay_append:
  "restore_replay env (xs @ ys) txn =
     (case restore_replay env xs txn of Inl st \<Rightarrow> Inl st | Inr t \<Rightarrow> restore_replay env ys t)"
  by (induction xs arbitrary: txn)
     (auto split: sum.splits ReplOp.splits prod.splits)

lemma restore_replay_unknown_op:
  "r \<in> set logs \<Longrightarrow> getOp (getReplLogValue r) = REPL_OP_OTHER n \<Longrightarrow>
     \<exists>st. restore_replay env logs txn = Inl st"
  by (induction logs arbitrary: txn)
     (auto split: sum.splits ReplOp.splits prod.splits)

lemma restore_replay_store:
  "restore_replay env logs txn = Inr txn1 \<Longrightarrow> txnStore txn1 = txnStore txn"
  by (induction logs arbitrary: txn)
     (auto simp: setKV_def delKV_def split: sum.splits ReplOp.splits prod.splits if_splits)

lemma restore_run_commits_only_replayed:
  "(stores (snd (RestoreBinlog_run env sess svr)) = stores svr
      \<and> (\<forall>v. fst (RestoreBinlog_run env sess svr) \<noteq> Value v))
   \<or> (\<exists>logs store txn1.
        restore_decode env (drop 2 (getArgs sess)) [] = Value logs
        \<and> restore_replay env logs \<lparr>txnStore = store, writes = []\<rparr> = Inr txn1)"
  unfolding RestoreBinlog_run_def
  by (auto simp: createTransaction_def commit_def simp del: restore_replay.simps
      split: sum.splits prod.splits Outcome.splits list.splits if_splits
      dest!: getDb_frame)

text \<open>
  C4. Single-transaction constraint of a restore. When the store id parses and is in
  range, the decoding loop yields \<open>logs\<close>, and \<open>logs\<close> carry more than one distinct
  transaction id, the command returns the parameter error \<^verbatim>\<open>ERR_PARSEOPT\<close> ``txn id not
  all the same'' and the server is what it was before the call: no lock is taken, no
  transaction is opened, no store is written.
\<close>

theorem restore_mixed_txn_rejected:
  assumes sid: "stoul env (getArgs sess ! 1) = Inr sid"
    and valid: "unat sid < getKVStoreCount svr"
    and dec: "restore_decode env (drop 2 (getArgs sess)) [] = Value logs"
    and mixed: "1 < card (txnOf ` set logs)"
  shows "RestoreBinlog_run env sess svr
           = (Error (ERR_PARSEOPT, ''txn id not all the same''), svr)"
proof -
  from mixed_txn_ids[OF mixed] obtain front others
    where logs: "logs = front # others"
      and ex: "list_ex (\<lambda>kv. txnOf kv \<noteq> txnOf front) logs"
    by (cases logs) auto
  from restore_decode_length[OF dec] logs
  have ev: "even (length (drop 2 (getArgs sess)))" and "0 < length (drop 2 (getArgs sess)) div 2"
    by auto
  then have len: "2 < length (getArgs sess)" by auto
  with ev have "even (length (getArgs sess))" by simp
  then have m: "length (getArgs sess) mod 2 = 0" by presburger
  from m len sid valid dec logs ex show ?thesis
    by (simp add: RestoreBinlog_run_def)
qed

theorem restore_mixed_txn_rejected_witness:
  "RestoreBinlog_run demoEnv
       (demoSession [''restorebinlog'', ''0'', ''73'', ''Sa'', ''33'', ''Sb''])
       (demoServer [demoStore []])
     = (Error (ERR_PARSEOPT, ''txn id not all the same''), demoServer [demoStore []])"
proof (rule restore_mixed_txn_rejected[where sid = 0
      and logs = "[mkLog 7 3 REPL_OP_SET ''a'' ''a'', mkLog 3 3 REPL_OP_SET ''b'' ''b'']"])
  show "stoul demoEnv
          (getArgs (demoSession [''restorebinlog'', ''0'', ''73'', ''Sa'', ''33'', ''Sb'']) ! 1)
        = Inr 0"
    by (simp add: demo_defs)
  show "unat (0 :: 64 word) < getKVStoreCount (demoServer [demoStore []])"
    by (simp add: demo_defs)
  show "restore_decode demoEnv
          (drop 2 (getArgs (demoSession [''restorebinlog'', ''0'', ''73'', ''Sa'', ''33'', ''Sb''])))
          []
        = Value [mkLog 7 3 REPL_OP_SET ''a'' ''a'', mkLog 3 3 REPL_OP_SET ''b'' ''b'']"
    by (simp add: demo_defs)
  show "1 < card (txnOf ` set [mkLog 7 3 REPL_OP_SET ''a'' ''a'', mkLog 3 3 REPL_OP_SET ''b'' ''b''])"
    by (simp add: demo_defs)
qed

text \<open>
  C10, as stated: every restore request with a record whose operation is neither
  \<^verbatim>\<open>REPL_OP_SET\<close> nor \<^verbatim>\<open>REPL_OP_DEL\<close> returns \<^verbatim>\<open>ERR_PARSEOPT\<close> ``invalid replop''. It
  does not: \<^verbatim>\<open>RecordKey::decode\<close> (lines 337 to 341) is called on the record before the
  \<^verbatim>\<open>switch\<close>, and the checks of lines 290 to 329 come before the replay. Here the one
  record of the request has an unknown operation and a key that does not decode, and
  the command returns the status of the key decoder, after the lock was taken and the
  transaction opened.
\<close>

theorem restore_unknown_op_counterexample:
  "restore_decode demoEnv
      (drop 2 (getArgs (demoSession [''restorebinlog'', ''0'', ''73'', ''X''])))
      []
     = Value [mkLog 7 3 (REPL_OP_OTHER 88) [] []]
   \<and> getOp (getReplLogValue (mkLog 7 3 (REPL_OP_OTHER 88) [] [])) = REPL_OP_OTHER 88
   \<and> RestoreBinlog_run demoEnv (demoSession [''restorebinlog'', ''0'', ''73'', ''X''])
         (demoServer [demoStore []])
       = (Error (ERR_OTHER 3, ''bad key''),
          (demoServer [demoStore []])\<lparr>locks := [(0, LOCK_IX)], opened := 1\<rparr>)"
  by (simp add: demo_defs RestoreBinlog_run_def getDb_def createTransaction_def)

text \<open>
  C10, amended. Let the decoding loop yield records among which \<open>r\<close> has an operation
  that is neither \<^verbatim>\<open>REPL_OP_SET\<close> nor \<^verbatim>\<open>REPL_OP_DEL\<close>. Then on every path the command
  does not return a reply and leaves every store as it was: the transaction is not
  committed, so what the records before \<open>r\<close> wrote into it never reaches the store. And
  when the replay reaches the \<^verbatim>\<open>switch\<close> on \<open>r\<close> (one transaction id, the store open,
  lock and transaction granted, the records before \<open>r\<close> replayed without error, the
  key of \<open>r\<close> decoded), the status returned is \<^verbatim>\<open>ERR_PARSEOPT\<close> ``invalid replop''.
\<close>

theorem restore_unknown_op_rejected:
  assumes sid: "stoul env (getArgs sess ! 1) = Inr sid"
    and valid: "unat sid < getKVStoreCount svr"
    and dec: "restore_decode env (drop 2 (getArgs sess)) [] = Value (pre @ r # post)"
    and bad: "getOp (getReplLogValue r) = REPL_OP_OTHER n"
  shows "stores (snd (RestoreBinlog_run env sess svr)) = stores svr
       \<and> (\<forall>v. fst (RestoreBinlog_run env sess svr) \<noteq> Value v)
       \<and> (\<not> list_ex (\<lambda>kv. txnOf kv \<noteq> txnOf (hd (pre @ r # post))) (pre @ r # post)
            \<and> isOpen (stores svr ! unat sid)
            \<and> ok (lockStatus env (unat sid) LOCK_IX)
            \<and> ok (createTransactionStatus env (unat sid))
            \<and> restore_replay env pre \<lparr>txnStore = unat sid, writes = []\<rparr> = Inr txn1
            \<and> RecordKey_decode env (getOpKey (getReplLogValue r)) = Inr rk
          \<longrightarrow> fst (RestoreBinlog_run env sess svr) = Error (ERR_PARSEOPT, ''invalid replop''))"
proof -
  let ?logs = "pre @ r # post"
  have never: "\<exists>st. restore_replay env ?logs txn = Inl st" for txn
    using restore_replay_unknown_op[of r ?logs n env txn] bad by simp
  have frame: "stores (snd (RestoreBinlog_run env sess svr)) = stores svr
       \<and> (\<forall>v. fst (RestoreBinlog_run env sess svr) \<noteq> Value v)"
    using restore_run_commits_only_replayed[of env sess svr]
  proof
    assume "\<exists>logs store txn1.
        restore_decode env (drop 2 (getArgs sess)) [] = Value logs
        \<and> restore_replay env logs \<lparr>txnStore = store, writes = []\<rparr> = Inr txn1"
    then obtain store t1
      where "restore_replay env ?logs \<lparr>txnStore = store, writes = []\<rparr> = Inr t1"
      using dec by auto
    with never[of "\<lparr>txnStore = store, writes = []\<rparr>"] show ?thesis by simp
  qed
  have reach: "fst (RestoreBinlog_run env sess svr) = Error (ERR_PARSEOPT, ''invalid replop'')"
    if same: "\<not> list_ex (\<lambda>kv. txnOf kv \<noteq> txnOf (hd ?logs)) ?logs"
      and opn: "isOpen (stores svr ! unat sid)"
      and lock: "ok (lockStatus env (unat sid) LOCK_IX)"
      and txn: "ok (createTransactionStatus env (unat sid))"
      and rep: "restore_replay env pre \<lparr>txnStore = unat sid, writes = []\<rparr> = Inr txn1"
      and key: "RecordKey_decode env (getOpKey (getReplLogValue r)) = Inr rk"
  proof -
    obtain front others where logs: "?logs = front # others"
      by (cases ?logs) auto
    with same have same': "\<not> list_ex (\<lambda>kv. txnOf kv \<noteq> txnOf front) (front # others)"
      by simp
    from restore_decode_length[OF dec]
    have ev: "even (length (drop 2 (getArgs sess)))"
      and "0 < length (drop 2 (getArgs sess)) div 2"
      by auto
    then have len: "2 < length (getArgs sess)" by auto
    with ev have "even (length (getArgs sess))" by simp
    then have m: "length (getArgs sess) mod 2 = 0" by presburger
    have replay: "restore_replay env (front # others) \<lparr>txnStore = unat sid, writes = []\<rparr>
        = Inl (ERR_PARSEOPT, ''invalid replop'')"
      unfolding logs[symmetric] using rep key bad by (simp add: restore_replay_append)
    from valid opn lock
    have g: "getDb env svr (unat sid) LOCK_IX False
        = (Inr (unat sid), svr\<lparr>locks := locks svr @ [(unat sid, LOCK_IX)]\<rparr>)"
      by (simp add: getDb_def getKVStoreCount_def)
    from txn have c: "createTransaction env (svr\<lparr>locks := locks svr @ [(unat sid, LOCK_IX)]\<rparr>)
          (unat sid)
        = (Inr \<lparr>txnStore = unat sid, writes = []\<rparr>,
           svr\<lparr>locks := locks svr @ [(unat sid, LOCK_IX)], opened := Suc (opened svr)\<rparr>)"
      by (simp add: createTransaction_def)
    from dec logs have dec': "restore_decode env (drop 2 (getArgs sess)) [] = Value (front # others)"
      by simp
    from m len sid valid dec' same' g c replay show ?thesis
      by (simp add: RestoreBinlog_run_def del: restore_replay.simps list_ex_Cons_iff)
  qed
  from frame reach show ?thesis by blast
qed

theorem restore_unknown_op_rejected_witness:
  "restore_decode demoEnv
      (drop 2 (getArgs (demoSession [''restorebinlog'', ''0'', ''73'', ''Sk'', ''73'', ''Xk''])))
      []
     = Value ([mkLog 7 3 REPL_OP_SET ''k'' ''k''] @ mkLog 7 3 (REPL_OP_OTHER 88) ''k'' ''k'' # [])
   \<and> fst (RestoreBinlog_run demoEnv
            (demoSession [''restorebinlog'', ''0'', ''73'', ''Sk'', ''73'', ''Xk''])
            (demoServer [demoStore []]))
       = Error (ERR_PARSEOPT, ''invalid replop'')
   \<and> stores (snd (RestoreBinlog_run demoEnv
            (demoSession [''restorebinlog'', ''0'', ''73'', ''Sk'', ''73'', ''Xk''])
            (demoServer [demoStore []])))
       = stores (demoServer [demoStore []])"
proof -
  let ?sess = "demoSession [''restorebinlog'', ''0'', ''73'', ''Sk'', ''73'', ''Xk'']"
  let ?svr = "demoServer [demoStore []]"
  let ?pre = "[mkLog 7 3 REPL_OP_SET ''k'' ''k'']"
  let ?r = "mkLog 7 3 (REPL_OP_OTHER 88) ''k'' ''k''"
  have h1: "stoul demoEnv (getArgs ?sess ! 1) = Inr 0" by (simp add: demo_defs)
  have h2: "unat (0 :: 64 word) < getKVStoreCount ?svr" by (simp add: demo_defs)
  have h3: "restore_decode demoEnv (drop 2 (getArgs ?sess)) [] = Value (?pre @ ?r # [])"
    by (simp add: demo_defs)
  have h4: "getOp (getReplLogValue ?r) = REPL_OP_OTHER 88" by (simp add: demo_defs)
  have p: "\<not> list_ex (\<lambda>kv. txnOf kv \<noteq> txnOf (hd (?pre @ ?r # []))) (?pre @ ?r # [])
            \<and> isOpen (stores ?svr ! unat (0 :: 64 word))
            \<and> ok (lockStatus demoEnv (unat (0 :: 64 word)) LOCK_IX)
            \<and> ok (createTransactionStatus demoEnv (unat (0 :: 64 word)))
            \<and> restore_replay demoEnv ?pre \<lparr>txnStore = unat (0 :: 64 word), writes = []\<rparr>
                = Inr \<lparr>txnStore = 0, writes = [(''k'', Some ''k'')]\<rparr>
            \<and> RecordKey_decode demoEnv (getOpKey (getReplLogValue ?r)) = Inr ''k''"
    by (simp add: demo_defs setKV_def)
  from restore_unknown_op_rejected[OF h1 h2 h3 h4,
      of "\<lparr>txnStore = 0, writes = [(''k'', Some ''k'')]\<rparr>" "''k''"] p h3
  show ?thesis by blast
qed

subsection \<open>applybinlogs\<close>

lemma map_assign_keys:
  "fst ` set (map_assign k v m) = insert k (fst ` set m)"
  by (induction k v m rule: map_assign.induct) (simp_all add: insert_commute)

lemma map_assign_sorted:
  "sorted_wrt (<) (map fst m) \<Longrightarrow> sorted_wrt (<) (map fst (map_assign k v m))"
proof (induction m)
  case Nil
  then show ?case by simp
next
  case (Cons a m)
  obtain k1 v1 where a: "a = (k1, v1)" by (cases a)
  from Cons.prems a have lt: "\<forall>x \<in> set (map fst m). k1 < x" and s: "sorted_wrt (<) (map fst m)"
    by auto
  show ?case
  proof (cases "k < k1")
    case True
    with a lt s show ?thesis by auto
  next
    case False
    show ?thesis
    proof (cases "k = k1")
      case True
      with a lt s show ?thesis by auto
    next
      case ne: False
      with False have "k1 < k" by simp
      with a False ne lt Cons.IH[OF s] show ?thesis
        by (auto simp: map_assign_keys)
    qed
  qed
qed

lemma map_of_map_assign:
  "map_of (map_assign k v m) = (map_of m)(k \<mapsto> v)"
  by (induction m) (auto simp: fun_upd_twist)

lemma group_add_sorted:
  "sorted_wrt (<) (map fst g) \<Longrightarrow> sorted_wrt (<) (map fst (group_add r g))"
  by (simp add: group_add_def map_emplace_back_def Let_def map_assign_sorted)

lemma map_of_group_add:
  "map_of (group_add r g) =
     (map_of g)(txnOf r \<mapsto> (case map_of g (txnOf r) of None \<Rightarrow> [] | Some l \<Rightarrow> l) @ [r])"
  by (auto simp: group_add_def map_emplace_back_def Let_def map_of_map_assign split: option.splits)

lemma grouped_inv_step:
  assumes "grouped_inv g logs"
  shows "grouped_inv (group_add r g) (logs @ [r])"
proof -
  from assms have s: "sorted_wrt (<) (map fst g)"
    and m: "\<And>t. map_of g t = (if t \<in> txnOf ` set logs then Some (txnGroup t logs) else None)"
    by (auto simp: grouped_inv_def)
  have e: "txnGroup (txnOf r) logs = []" if n: "txnOf r \<notin> txnOf ` set logs"
  proof -
    have "txnOf x \<noteq> txnOf r" if "x \<in> set logs" for x
    proof
      assume "txnOf x = txnOf r"
      with that have "txnOf r \<in> txnOf ` set logs" by (metis imageI)
      with n show False by simp
    qed
    then show ?thesis by (simp add: txnGroup_def filter_empty_conv)
  qed
  have "map_of (group_add r g) t
      = (if t \<in> txnOf ` set (logs @ [r]) then Some (txnGroup t (logs @ [r])) else None)" for t
    using e by (auto simp: map_of_group_add m txnGroup_def)
  with group_add_sorted[OF s] show ?thesis by (simp add: grouped_inv_def)
qed

lemma grouped_inv_fold:
  "grouped_inv g logs \<Longrightarrow> grouped_inv (fold group_add rs g) (logs @ rs)"
proof (induction rs arbitrary: g logs)
  case Nil
  then show ?case by simp
next
  case (Cons r rs)
  from Cons.IH[OF grouped_inv_step[OF Cons.prems, of r]] show ?case by simp
qed

lemma alist_by_keys:
  "distinct (map fst g) \<Longrightarrow> g = map (\<lambda>k. (k, the (map_of g k))) (map fst g)"
proof (induction g)
  case Nil
  then show ?case by simp
next
  case (Cons a g)
  obtain k v where a: "a = (k, v)" by (cases a)
  from Cons.prems a have nk: "k \<notin> fst ` set g" and d: "distinct (map fst g)" by auto
  from nk have "map (\<lambda>x. (x, the (map_of ((k, v) # g) x))) (map fst g)
      = map (\<lambda>x. (x, the (map_of g x))) (map fst g)"
    by (intro map_cong) auto
  with Cons.IH[OF d] a show ?case by simp
qed

lemma grouped_inv_unique:
  assumes "grouped_inv g logs"
  shows "g = ascending_batches logs"
proof -
  from assms have s: "sorted_wrt (<) (map fst g)"
    and m: "\<And>t. map_of g t = (if t \<in> txnOf ` set logs then Some (txnGroup t logs) else None)"
    by (auto simp: grouped_inv_def)
  from s have sd: "sorted (map fst g)" "distinct (map fst g)"
    by (simp_all add: strict_sorted_iff)
  have "fst ` set g = dom (map_of g)" by (simp add: dom_map_of_conv_image_fst)
  also have "\<dots> = txnOf ` set logs" by (auto simp: m dom_def)
  finally have keys: "set (map fst g) = txnOf ` set logs" by simp
  have "map fst g = sorted_list_of_set (txnOf ` set logs)"
    using sd keys by (metis sorted_list_of_set.idem_if_sorted_distinct)
  moreover have "g = map (\<lambda>k. (k, the (map_of g k))) (map fst g)"
    by (rule alist_by_keys[OF sd(2)])
  moreover have "map (\<lambda>k. (k, the (map_of g k))) (map fst g)
      = map (\<lambda>k. (k, txnGroup k logs)) (map fst g)"
    using keys by (intro map_cong) (auto simp: m)
  ultimately show ?thesis by (simp add: ascending_batches_def)
qed

lemma apply_decode_decoded:
  "decoded env xs = Some logs \<Longrightarrow> apply_decode env xs g = Value (fold group_add logs g)"
  by (induction env xs g arbitrary: logs rule: apply_decode.induct)
     (auto split: sum.splits)

lemma apply_decode_batches:
  assumes "decoded env xs = Some logs"
  shows "apply_decode env xs [] = Value (ascending_batches logs)"
proof -
  have "grouped_inv [] []" by (simp add: grouped_inv_def)
  from grouped_inv_fold[OF this, of logs] have "grouped_inv (fold group_add logs []) logs"
    by simp
  from grouped_inv_unique[OF this] apply_decode_decoded[OF assms, of "[]"]
  show ?thesis by simp
qed

lemma check_framing_faults:
  "(t, l) \<in> set g \<Longrightarrow>
     (getFlag (getReplLogKey (hd l)) AND REPL_GROUP_START env) = 0
       \<or> (getFlag (getReplLogKey (last l)) AND REPL_GROUP_END env) = 0 \<Longrightarrow>
     \<exists>msg. check_framing env g = Some msg"
  by (induction g) auto

lemma ascending_batches_member:
  "t \<in> txnOf ` set logs \<Longrightarrow> (t, txnGroup t logs) \<in> set (ascending_batches logs)"
  by (auto simp: ascending_batches_def)

lemma apply_decode_odd:
  "odd (length xs) \<Longrightarrow>
     apply_decode env xs g = OutOfRange
     \<or> (\<exists>k v st. ReplLog_decode env k v = Inl st \<and> apply_decode env xs g = Error st)"
  by (induction env xs g rule: apply_decode.induct) (auto split: sum.splits)

lemmas apply_defs =
  ApplyBinlogs_run_def getDb_def applyBinlogs_def group_add_def map_emplace_back_def

text \<open>
  C2. Framing validation of an apply. Let the store id parse and be in range and the
  records decode to \<open>logs\<close>. If some transaction \<open>t\<close> of \<open>logs\<close> has a first record without
  \<^verbatim>\<open>REPL_GROUP_START\<close> or a last record without \<^verbatim>\<open>REPL_GROUP_END\<close>, the command aborts
  (\<^verbatim>\<open>LOG(FATAL)\<close>) and the server is what it was before the call: no lock is taken and
  no batch, of this or of any other transaction, is handed to the replication manager.
\<close>

theorem apply_framing_fault:
  assumes sid: "stoul env (getArgs sess ! 1) = Inr sid"
    and valid: "unat sid < getKVStoreCount svr"
    and len: "2 \<le> length (getArgs sess)"
    and dec: "decoded env (drop 2 (getArgs sess)) = Some logs"
    and t: "t \<in> txnOf ` set logs"
    and bad: "(getFlag (getReplLogKey (hd (txnGroup t logs))) AND REPL_GROUP_START env) = 0
            \<or> (getFlag (getReplLogKey (last (txnGroup t logs))) AND REPL_GROUP_END env) = 0"
  shows "\<exists>msg. ApplyBinlogs_run env sess svr = (Abort msg, svr)"
proof -
  from check_framing_faults[OF ascending_batches_member[OF t] bad]
  obtain msg where "check_framing env (ascending_batches logs) = Some msg" ..
  with sid valid len apply_decode_batches[OF dec]
  have "ApplyBinlogs_run env sess svr = (Abort msg, svr)"
    by (simp add: ApplyBinlogs_run_def)
  then show ?thesis ..
qed

theorem apply_framing_fault_witness:
  "\<exists>msg. ApplyBinlogs_run demoEnv
       (demoSession [''applybinlogs'', ''0'', ''73'', ''Sa'', ''32'', ''Sb''])
       (demoServer [demoStore []])
     = (Abort msg, demoServer [demoStore []])"
proof (rule apply_framing_fault[where sid = 0 and t = 3
      and logs = "[mkLog 7 3 REPL_OP_SET ''a'' ''a'', mkLog 3 2 REPL_OP_SET ''b'' ''b'']"])
  let ?sess = "demoSession [''applybinlogs'', ''0'', ''73'', ''Sa'', ''32'', ''Sb'']"
  let ?logs = "[mkLog 7 3 REPL_OP_SET ''a'' ''a'', mkLog 3 2 REPL_OP_SET ''b'' ''b'']"
  show "stoul demoEnv (getArgs ?sess ! 1) = Inr 0" by (simp add: demo_defs)
  show "unat (0 :: 64 word) < getKVStoreCount (demoServer [demoStore []])"
    by (simp add: demo_defs)
  show "2 \<le> length (getArgs ?sess)" by (simp add: demo_defs)
  show "decoded demoEnv (drop 2 (getArgs ?sess)) = Some ?logs" by (simp add: demo_defs)
  show "3 \<in> txnOf ` set ?logs" by (simp add: demo_defs)
  show "(getFlag (getReplLogKey (hd (txnGroup 3 ?logs))) AND REPL_GROUP_START demoEnv) = 0
      \<or> (getFlag (getReplLogKey (last (txnGroup 3 ?logs))) AND REPL_GROUP_END demoEnv) = 0"
    by (simp add: demo_defs txnGroup_def)
qed

text \<open>
  C3, as stated: the batches are handed to the replication manager in the order in
  which their first records arrive. They are not: \<^verbatim>\<open>binlogGroup\<close> is a \<^verbatim>\<open>std::map\<close>
  keyed by transaction id. Here the records of transaction 7 arrive before those of
  transaction 3 (\<open>first_seen\<close> gives 7, 3), and the manager is handed the batch of
  transaction 3 first.
\<close>

theorem apply_batches_arrival_order_counterexample:
  "decoded demoEnv
      (drop 2 (getArgs (demoSession [''applybinlogs'', ''0'', ''73'', ''Sa'', ''33'', ''Sb''])))
     = Some [mkLog 7 3 REPL_OP_SET ''a'' ''a'', mkLog 3 3 REPL_OP_SET ''b'' ''b'']
   \<and> first_seen (map txnOf [mkLog 7 3 REPL_OP_SET ''a'' ''a'', mkLog 3 3 REPL_OP_SET ''b'' ''b''])
       = [7, 3]
   \<and> applied (snd (ApplyBinlogs_run demoEnv
        (demoSession [''applybinlogs'', ''0'', ''73'', ''Sa'', ''33'', ''Sb''])
        (demoServer [demoStore []])))
       = [(0, 42, [(3, [mkLog 3 3 REPL_OP_SET ''b'' ''b'']),
                  (7, [mkLog 7 3 REPL_OP_SET ''a'' ''a''])])]"
  by (simp add: demo_defs apply_defs)

text \<open>
  C3, amended. When the records decode to \<open>logs\<close>, the framing is valid and the lock
  is granted, the replication manager is handed, once, the batches in ascending order
  of transaction id, each batch holding the records of its transaction in arrival
  order.
\<close>

theorem apply_batches_ascending:
  assumes sid: "stoul env (getArgs sess ! 1) = Inr sid"
    and valid: "unat sid < getKVStoreCount svr"
    and len: "2 \<le> length (getArgs sess)"
    and dec: "decoded env (drop 2 (getArgs sess)) = Some logs"
    and framed: "check_framing env (ascending_batches logs) = None"
    and opn: "isOpen (stores svr ! unat sid)"
    and lock: "ok (lockStatus env (unat sid) LOCK_IX)"
  shows "applied (snd (ApplyBinlogs_run env sess svr))
           = applied svr
             @ [(unat sid, sessId sess,
                 map (\<lambda>t. (t, txnGroup t logs)) (sorted_list_of_set (txnOf ` set logs)))]"
proof -
  from valid opn lock
  have g: "getDb env svr (unat sid) LOCK_IX False
      = (Inr (unat sid), svr\<lparr>locks := locks svr @ [(unat sid, LOCK_IX)]\<rparr>)"
    by (simp add: getDb_def getKVStoreCount_def)
  from sid valid len apply_decode_batches[OF dec] framed g show ?thesis
    by (simp add: ApplyBinlogs_run_def applyBinlogs_def ascending_batches_def)
qed

theorem apply_batches_ascending_witness:
  "applied (snd (ApplyBinlogs_run demoEnv
        (demoSession [''applybinlogs'', ''0'', ''73'', ''Sa'', ''33'', ''Sb''])
        (demoServer [demoStore []])))
     = applied (demoServer [demoStore []])
       @ [(unat (0 :: 64 word),
           sessId (demoSession [''applybinlogs'', ''0'', ''73'', ''Sa'', ''33'', ''Sb'']),
           map (\<lambda>t. (t, txnGroup t [mkLog 7 3 REPL_OP_SET ''a'' ''a'',
                                      mkLog 3 3 REPL_OP_SET ''b'' ''b'']))
             (sorted_list_of_set
                (txnOf ` set [mkLog 7 3 REPL_OP_SET ''a'' ''a'',
                              mkLog 3 3 REPL_OP_SET ''b'' ''b''])))]"
proof (rule apply_batches_ascending)
  let ?sess = "demoSession [''applybinlogs'', ''0'', ''73'', ''Sa'', ''33'', ''Sb'']"
  let ?logs = "[mkLog 7 3 REPL_OP_SET ''a'' ''a'', mkLog 3 3 REPL_OP_SET ''b'' ''b'']"
  show "stoul demoEnv (getArgs ?sess ! 1) = Inr 0" by (simp add: demo_defs)
  show "unat (0 :: 64 word) < getKVStoreCount (demoServer [demoStore []])"
    by (simp add: demo_defs)
  show "2 \<le> length (getArgs ?sess)" by (simp add: demo_defs)
  show "decoded demoEnv (drop 2 (getArgs ?sess)) = Some ?logs" by (simp add: demo_defs)
  have "sorted_list_of_set (txnOf ` set ?logs) = [3, 7]"
    by (simp add: demo_defs)
  then show "check_framing demoEnv (ascending_batches ?logs) = None"
    by (simp add: ascending_batches_def) (simp add: demo_defs txnGroup_def)
  show "isOpen (stores (demoServer [demoStore []]) ! unat (0 :: 64 word))"
    by (simp add: demo_defs)
  show "ok (lockStatus demoEnv (unat (0 :: 64 word)) LOCK_IX)" by (simp add: demo_defs)
qed

text \<open>
  C7. An odd-length record list. \<^verbatim>\<open>applybinlogs\<close> has no check of the argument
  count: with five arguments the decoding loop reads \<^verbatim>\<open>args[5]\<close>, past the end of the
  vector, where \<^verbatim>\<open>restorebinlog\<close> on the same arguments returns \<^verbatim>\<open>ERR_PARSEOPT\<close>
  ``invalid param len''. By \<open>apply_decode_odd\<close> an odd-length list always ends in that
  read unless an earlier pair fails to decode.
\<close>

theorem apply_odd_length_out_of_range:
  "ApplyBinlogs_run demoEnv (demoSession [''applybinlogs'', ''0'', ''73'', ''Sa'', ''33''])
       (demoServer [demoStore []])
     = (OutOfRange, demoServer [demoStore []])
   \<and> RestoreBinlog_run demoEnv (demoSession [''restorebinlog'', ''0'', ''73'', ''Sa'', ''33''])
       (demoServer [demoStore []])
     = (Error (ERR_PARSEOPT, ''invalid param len''), demoServer [demoStore []])"
  by (simp add: demo_defs apply_defs RestoreBinlog_run_def)

subsection \<open>slaveof\<close>

lemma getDb_tolerant:
  "i < length (stores svr) \<Longrightarrow> ok (lockStatus env i LOCK_X) \<Longrightarrow>
     getDb env svr i LOCK_X True = (Inr i, svr\<lparr>locks := locks svr @ [(i, LOCK_X)]\<rparr>)"
  by (simp add: getDb_def)

lemma slaveofSomeOne_all_stops:
  assumes "\<forall>i \<in> set pre. i < length (stores svr) \<and> ok (lockStatus env i LOCK_X)
             \<and> (isOpen (stores svr ! i) \<longrightarrow> ok (changeReplSourceStatus env i ip port i))"
    and "k < length (stores svr)" and "ok (lockStatus env k LOCK_X)"
    and "isOpen (stores svr ! k)" and "\<not> ok (changeReplSourceStatus env k ip port k)"
  shows "\<exists>svr1. slaveofSomeOne_all env ip port (pre @ k # post) svr
            = (Error (changeReplSourceStatus env k ip port k), svr1)
       \<and> stores svr1 = stores svr
       \<and> locks svr1 = locks svr @ map (\<lambda>i. (i, LOCK_X)) (pre @ [k])
       \<and> replSource svr1
           = fold (\<lambda>i rs. if isOpen (stores svr ! i) then rs[i := (ip, port, i)] else rs)
               pre (replSource svr)"
  using assms
proof (induction pre arbitrary: svr)
  case Nil
  then show ?case
    by (simp add: getDb_tolerant changeReplSource_def)
next
  case (Cons i pre)
  let ?svr1 = "svr\<lparr>locks := locks svr @ [(i, LOCK_X)]\<rparr>"
  from Cons.prems have i: "i < length (stores svr)" "ok (lockStatus env i LOCK_X)" by auto
  show ?case
  proof (cases "isOpen (stores svr ! i)")
    case False
    from Cons.IH[of ?svr1] Cons.prems
    obtain svr2 where r:
      "slaveofSomeOne_all env ip port (pre @ k # post) ?svr1
         = (Error (changeReplSourceStatus env k ip port k), svr2)"
      and f: "stores svr2 = stores svr"
      "locks svr2 = locks ?svr1 @ map (\<lambda>i. (i, LOCK_X)) (pre @ [k])"
      "replSource svr2
         = fold (\<lambda>i rs. if isOpen (stores svr ! i) then rs[i := (ip, port, i)] else rs)
             pre (replSource svr)"
      by auto
    have "slaveofSomeOne_all env ip port ((i # pre) @ k # post) svr
        = (Error (changeReplSourceStatus env k ip port k), svr2)"
      using False i r by (simp add: getDb_tolerant)
    with f False show ?thesis by simp
  next
    case True
    let ?svr2 = "?svr1\<lparr>replSource := (replSource svr)[i := (ip, port, i)]\<rparr>"
    from True Cons.prems have okc: "ok (changeReplSourceStatus env i ip port i)" by simp
    from Cons.IH[of ?svr2] Cons.prems
    obtain svr3 where r:
      "slaveofSomeOne_all env ip port (pre @ k # post) ?svr2
         = (Error (changeReplSourceStatus env k ip port k), svr3)"
      and f: "stores svr3 = stores svr"
      "locks svr3 = locks ?svr2 @ map (\<lambda>i. (i, LOCK_X)) (pre @ [k])"
      "replSource svr3
         = fold (\<lambda>i rs. if isOpen (stores svr ! i) then rs[i := (ip, port, i)] else rs)
             pre ((replSource svr)[i := (ip, port, i)])"
      by auto
    have "slaveofSomeOne_all env ip port ((i # pre) @ k # post) svr
        = (Error (changeReplSourceStatus env k ip port k), svr3)"
      using True okc i r by (simp add: getDb_tolerant changeReplSource_def)
    with f True show ?thesis by simp
  qed
qed

lemma slaveofNoOne_all_stops:
  assumes "\<forall>i \<in> set pre. i < length (stores svr) \<and> ok (lockStatus env i LOCK_X)
             \<and> (isOpen (stores svr ! i) \<longrightarrow> ok (changeReplSourceStatus env i [] 0 0))"
    and "k < length (stores svr)" and "ok (lockStatus env k LOCK_X)"
    and "isOpen (stores svr ! k)" and "\<not> ok (changeReplSourceStatus env k [] 0 0)"
  shows "\<exists>svr1. slaveofNoOne_all env (pre @ k # post) svr
            = (Error (changeReplSourceStatus env k [] 0 0), svr1)
       \<and> stores svr1 = stores svr
       \<and> locks svr1 = locks svr @ map (\<lambda>i. (i, LOCK_X)) (pre @ [k])
       \<and> replSource svr1
           = fold (\<lambda>i rs. if isOpen (stores svr ! i) then rs[i := ([], 0, 0)] else rs)
               pre (replSource svr)"
  using assms
proof (induction pre arbitrary: svr)
  case Nil
  then show ?case
    by (simp add: getDb_tolerant changeReplSource_def)
next
  case (Cons i pre)
  let ?svr1 = "svr\<lparr>locks := locks svr @ [(i, LOCK_X)]\<rparr>"
  from Cons.prems have i: "i < length (stores svr)" "ok (lockStatus env i LOCK_X)" by auto
  show ?case
  proof (cases "isOpen (stores svr ! i)")
    case False
    from Cons.IH[of ?svr1] Cons.prems
    obtain svr2 where r:
      "slaveofNoOne_all env (pre @ k # post) ?svr1
         = (Error (changeReplSourceStatus env k [] 0 0), svr2)"
      and f: "stores svr2 = stores svr"
      "locks svr2 = locks ?svr1 @ map (\<lambda>i. (i, LOCK_X)) (pre @ [k])"
      "replSource svr2
         = fold (\<lambda>i rs. if isOpen (stores svr ! i) then rs[i := ([], 0, 0)] else rs)
             pre (replSource svr)"
      by auto
    have "slaveofNoOne_all env ((i # pre) @ k # post) svr
        = (Error (changeReplSourceStatus env k [] 0 0), svr2)"
      using False i r by (simp add: getDb_tolerant)
    with f False show ?thesis by simp
  next
    case True
    let ?svr2 = "?svr1\<lparr>replSource := (replSource svr)[i := ([], 0, 0)]\<rparr>"
    from True Cons.prems have okc: "ok (changeReplSourceStatus env i [] 0 0)" by simp
    from Cons.IH[of ?svr2] Cons.prems
    obtain svr3 where r:
      "slaveofNoOne_all env (pre @ k # post) ?svr2
         = (Error (changeReplSourceStatus env k [] 0 0), svr3)"
      and f: "stores svr3 = stores svr"
      "locks svr3 = locks ?svr2 @ map (\<lambda>i. (i, LOCK_X)) (pre @ [k])"
      "replSource svr3
         = fold (\<lambda>i rs. if isOpen (stores svr ! i) then rs[i := ([], 0, 0)] else rs)
             pre ((replSource svr)[i := ([], 0, 0)])"
      by auto
    have "slaveofNoOne_all env ((i # pre) @ k # post) svr
        = (Error (changeReplSourceStatus env k [] 0 0), svr3)"
      using True okc i r by (simp add: getDb_tolerant changeReplSource_def)
    with f True show ?thesis by simp
  qed
qed

lemma fold_update_length:
  "length (fold (\<lambda>i rs. if P i then rs[i := d i] else rs) pre rs) = length rs"
  by (induction pre arbitrary: rs) auto

lemma fold_update_nth:
  "j < length rs \<Longrightarrow>
     fold (\<lambda>i rs. if P i then rs[i := d i] else rs) pre rs ! j
       = (if j \<in> set pre \<and> P j then d j else rs ! j)"
proof (induction pre arbitrary: rs)
  case Nil
  then show ?case by simp
next
  case (Cons i pre)
  show ?case
  proof (cases "P i")
    case True
    with Cons.IH[of "rs[i := d i]"] Cons.prems show ?thesis
      by (cases "j = i") (auto simp: nth_list_update)
  next
    case False
    with Cons.IH[of rs] Cons.prems show ?thesis by auto
  qed
qed

lemma upt_split: "k < n \<Longrightarrow> [0 ..< n] = [0 ..< k] @ k # [Suc k ..< n]"
proof -
  assume "k < n"
  then obtain m where n: "n = k + Suc m" by (auto simp: less_iff_Suc_add)
  have "[0 ..< k + Suc m] = [0 ..< k] @ [k ..< k + Suc m]"
    using upt_add_eq_append[of 0 k "Suc m"] by simp
  also have "[k ..< k + Suc m] = k # [Suc k ..< k + Suc m]"
    by (simp add: upt_conv_Cons)
  finally show ?thesis by (simp add: n)
qed

lemmas slaveof_defs =
  runSlaveofSomeOne_def runSlaveofNoOne_def getDb_def changeReplSource_def refusingEnv_def
  fourStores_def

text \<open>
  C8. First error of a change of all stores. Let store \<open>k\<close> be open and the exclusive
  locks of the stores up to \<open>k\<close> be granted. For \<^verbatim>\<open>slaveof host port\<close> (three arguments)
  and for \<^verbatim>\<open>slaveof no one\<close> (any number of arguments but four): if the replication
  manager accepts the change for every open store before \<open>k\<close> and refuses it for \<open>k\<close>,
  the command returns the status of that refusal; the stores were visited in ascending
  order from 0 to \<open>k\<close> and none after \<open>k\<close>; every open store before \<open>k\<close> keeps its new
  descriptor; and every store after \<open>k\<close>, and every store that is not open, has the
  descriptor it had.
\<close>

theorem slaveof_all_first_error:
  assumes k: "k < getKVStoreCount svr"
    and lock: "\<forall>i \<le> k. ok (lockStatus env i LOCK_X)"
    and opn: "isOpen (stores svr ! k)"
  shows "(length (getArgs sess) = 3
          \<and> std_stoul env (getArgs sess ! 2) = Inr port
          \<and> (\<forall>i < k. isOpen (stores svr ! i) \<longrightarrow>
                ok (changeReplSourceStatus env i (getArgs sess ! 1) port i))
          \<and> \<not> ok (changeReplSourceStatus env k (getArgs sess ! 1) port k)
         \<longrightarrow> bulk_first_error svr k (\<lambda>j. (getArgs sess ! 1, port, j))
               (changeReplSourceStatus env k (getArgs sess ! 1) port k)
               (runSlaveofSomeOne env sess svr))
       \<and> (length (getArgs sess) \<noteq> 4
          \<and> (\<forall>i < k. isOpen (stores svr ! i) \<longrightarrow> ok (changeReplSourceStatus env i [] 0 0))
          \<and> \<not> ok (changeReplSourceStatus env k [] 0 0)
         \<longrightarrow> bulk_first_error svr k (\<lambda>j. ([], 0, 0))
               (changeReplSourceStatus env k [] 0 0)
               (runSlaveofNoOne env sess svr))"
proof (intro conjI impI)
  let ?n = "getKVStoreCount svr"
  from k have split: "[0 ..< ?n] = [0 ..< k] @ k # [Suc k ..< ?n]" by (rule upt_split)
  from k have kl: "k < length (stores svr)" by (simp add: getKVStoreCount_def)
  from lock have lk: "ok (lockStatus env k LOCK_X)" by simp
  {
    assume a: "length (getArgs sess) = 3
          \<and> std_stoul env (getArgs sess ! 2) = Inr port
          \<and> (\<forall>i < k. isOpen (stores svr ! i) \<longrightarrow>
                ok (changeReplSourceStatus env i (getArgs sess ! 1) port i))
          \<and> \<not> ok (changeReplSourceStatus env k (getArgs sess ! 1) port k)"
    let ?ip = "getArgs sess ! 1"
    from a k lock have pre: "\<forall>i \<in> set [0 ..< k]. i < length (stores svr)
        \<and> ok (lockStatus env i LOCK_X)
        \<and> (isOpen (stores svr ! i) \<longrightarrow> ok (changeReplSourceStatus env i ?ip port i))"
      by (auto simp: getKVStoreCount_def)
    from a have bad: "\<not> ok (changeReplSourceStatus env k ?ip port k)" by simp
    from slaveofSomeOne_all_stops[OF pre kl lk opn bad, of "[Suc k ..< ?n]"]
    obtain svr1 where r: "slaveofSomeOne_all env ?ip port [0 ..< ?n] svr
          = (Error (changeReplSourceStatus env k ?ip port k), svr1)"
      and f: "stores svr1 = stores svr"
        "locks svr1 = locks svr @ map (\<lambda>i. (i, LOCK_X)) ([0 ..< k] @ [k])"
        "replSource svr1
           = fold (\<lambda>i rs. if isOpen (stores svr ! i) then rs[i := (?ip, port, i)] else rs)
               [0 ..< k] (replSource svr)"
      unfolding split[symmetric] by auto
    from a r have run: "runSlaveofSomeOne env sess svr
        = (Error (changeReplSourceStatus env k ?ip port k), svr1)"
      by (simp add: runSlaveofSomeOne_def)
    show "bulk_first_error svr k (\<lambda>j. (?ip, port, j))
            (changeReplSourceStatus env k ?ip port k) (runSlaveofSomeOne env sess svr)"
      unfolding bulk_first_error_def run
      by (simp add: f fold_update_length fold_update_nth)
  }
  {
    assume a: "length (getArgs sess) \<noteq> 4
          \<and> (\<forall>i < k. isOpen (stores svr ! i) \<longrightarrow> ok (changeReplSourceStatus env i [] 0 0))
          \<and> \<not> ok (changeReplSourceStatus env k [] 0 0)"
    from a k lock have pre: "\<forall>i \<in> set [0 ..< k]. i < length (stores svr)
        \<and> ok (lockStatus env i LOCK_X)
        \<and> (isOpen (stores svr ! i) \<longrightarrow> ok (changeReplSourceStatus env i [] 0 0))"
      by (auto simp: getKVStoreCount_def)
    from a have bad: "\<not> ok (changeReplSourceStatus env k [] 0 0)" by simp
    from slaveofNoOne_all_stops[OF pre kl lk opn bad, of "[Suc k ..< ?n]"]
    obtain svr1 where r: "slaveofNoOne_all env [0 ..< ?n] svr
          = (Error (changeReplSourceStatus env k [] 0 0), svr1)"
      and f: "stores svr1 = stores svr"
        "locks svr1 = locks svr @ map (\<lambda>i. (i, LOCK_X)) ([0 ..< k] @ [k])"
        "replSource svr1
           = fold (\<lambda>i rs. if isOpen (stores svr ! i) then rs[i := ([], 0, 0)] else rs)
               [0 ..< k] (replSource svr)"
      unfolding split[symmetric] by auto
    from a r have run: "runSlaveofNoOne env sess svr
        = (Error (changeReplSourceStatus env k [] 0 0), svr1)"
      by (simp add: runSlaveofNoOne_def)
    show "bulk_first_error svr k (\<lambda>j. ([], 0, 0))
            (changeReplSourceStatus env k [] 0 0) (runSlaveofNoOne env sess svr)"
      unfolding bulk_first_error_def run
      by (simp add: f fold_update_length fold_update_nth)
  }
qed

theorem slaveof_all_first_error_witness:
  "bulk_first_error fourStores 2 (\<lambda>j. (''h'', 7777, j)) (ERR_INTERNAL, ''refused'')
     (runSlaveofSomeOne refusingEnv (demoSession [''slaveof'', ''h'', ''7777'']) fourStores)
   \<and> replSource (snd (runSlaveofSomeOne refusingEnv
        (demoSession [''slaveof'', ''h'', ''7777'']) fourStores))
       = [(''h'', 7777, 0), ([], 0, 0), ([], 0, 0), ([], 0, 0)]"
proof -
  let ?sess = "demoSession [''slaveof'', ''h'', ''7777'']"
  have h1: "2 < getKVStoreCount fourStores" by (simp add: demo_defs slaveof_defs)
  have h2: "\<forall>i \<le> 2. ok (lockStatus refusingEnv i LOCK_X)" by (simp add: demo_defs slaveof_defs)
  have h3: "isOpen (stores fourStores ! 2)" by (simp add: demo_defs slaveof_defs)
  have p: "length (getArgs ?sess) = 3
          \<and> std_stoul refusingEnv (getArgs ?sess ! 2) = Inr 7777
          \<and> (\<forall>i < 2. isOpen (stores fourStores ! i) \<longrightarrow>
                ok (changeReplSourceStatus refusingEnv i (getArgs ?sess ! 1) 7777 i))
          \<and> \<not> ok (changeReplSourceStatus refusingEnv 2 (getArgs ?sess ! 1) 7777 2)"
    by (simp add: demo_defs slaveof_defs)
  have e: "changeReplSourceStatus refusingEnv 2 (getArgs ?sess ! 1) 7777 2
      = (ERR_INTERNAL, ''refused'')" "getArgs ?sess ! 1 = ''h''"
    by (simp_all add: demo_defs slaveof_defs)
  have v: "replSource (snd (runSlaveofSomeOne refusingEnv ?sess fourStores))
       = [(''h'', 7777, 0), ([], 0, 0), ([], 0, 0), ([], 0, 0)]"
    by (simp add: demo_defs slaveof_defs upt_rec)
  from slaveof_all_first_error[OF h1 h2 h3, of ?sess 7777] p e v show ?thesis
    by simp
qed

end
